theory Spec2Isabelle
  imports Main "HOL-Library.Word"
begin

section \<open>Data model (scanner.c, lines 5-18)\<close>

text \<open>
  The external scanner of the grammar: \<^verbatim>\<open>enum TokenType\<close> and \<^verbatim>\<open>struct Scanner\<close>.
  A C \<^verbatim>\<open>int\<close> is modelled as \<^typ>\<open>int\<close>: signed overflow is undefined in C, and the
  model agrees with the code on every run in which no counter reaches \<open>2 ^ 31\<close>.
  The fixed array \<^verbatim>\<open>int indent_stack[100]\<close> is a list of 100 entries; every access
  outside \<open>0 ..< 100\<close> is undefined behaviour in C and a \<open>fault\<close> in the model.
\<close>

datatype TokenType = MULTI_LINE_RAW_STRING_LITERAL | INDENT | DEDENT | NEWLINE

record Scanner =
  hash_count :: int
  indent_stack :: "int list"
  indent_stack_size :: int
  current_indent :: int
  at_line_start :: bool

datatype fault = OutOfBoundsRead | OutOfBoundsWrite

definition stack_capacity :: int where
  "stack_capacity = 100"

text \<open>The logical indentation stack: the first \<open>indent_stack_size\<close> array slots, bottom first.\<close>

definition stack_of :: "Scanner \<Rightarrow> int list" where
  "stack_of scanner = take (nat (indent_stack_size scanner)) (indent_stack scanner)"

text \<open>
  \<^verbatim>\<open>tree_sitter_cangjie_external_scanner_create\<close> (lines 20-30). The argument is the result
  of \<^verbatim>\<open>malloc\<close>: \<open>None\<close> when the allocation fails, otherwise the indeterminate contents
  of the fresh block, of which only slot 0 of the array is initialised.
\<close>

definition create :: "Scanner option \<Rightarrow> Scanner option" where
  "create allocated =
     (case allocated of
        None \<Rightarrow> None
      | Some scanner \<Rightarrow>
          Some (scanner\<lparr>hash_count := 0,
                        indent_stack := (indent_stack scanner)[0 := 0],
                        indent_stack_size := 1,
                        current_indent := 0,
                        at_line_start := True\<rparr>))"

section \<open>The host's lexer\<close>

text \<open>
  Modelled from the spec: the host lexing interface \<^verbatim>\<open>TSLexer\<close> is declared in
  \<^verbatim>\<open>tree_sitter/parser.h\<close>, which is not part of the repository's sources. The cursor
  exposes the lookahead character (0 at end of input), the column, and \<^verbatim>\<open>advance\<close>.
  The column is the number of characters since the last line feed. The input is a list
  of 8-bit characters (the code compares the lookahead with ASCII characters only), and
  \<open>result_symbol\<close> is \<open>None\<close> until the scanner assigns a token kind.
\<close>

record TSLexer =
  remaining :: string
  column :: nat
  result_symbol :: "TokenType option"

definition lookahead :: "TSLexer \<Rightarrow> char" where
  "lookahead lexer = (case remaining lexer of [] \<Rightarrow> CHR 0x00 | c # cs \<Rightarrow> c)"

definition advance :: "TSLexer \<Rightarrow> TSLexer" where
  "advance lexer =
     (case remaining lexer of
        [] \<Rightarrow> lexer
      | c # cs \<Rightarrow> lexer\<lparr>remaining := cs,
                          column := (if c = CHR 0x0A then 0 else column lexer + 1)\<rparr>)"

definition get_column :: "TSLexer \<Rightarrow> nat" where
  "get_column lexer = column lexer"

definition quote_double :: char where
  "quote_double = CHR 0x22"

definition quote_single :: char where
  "quote_single = CHR 0x27"

section \<open>Serialization (scanner.c, lines 36-89)\<close>

text \<open>
  \<^verbatim>\<open>memcpy\<close> of a 32-bit \<^verbatim>\<open>int\<close> to and from four bytes (least significant byte first; the
  round trip does not depend on the byte order).
\<close>

definition int_bytes :: "int \<Rightarrow> 8 word list" where
  "int_bytes x =
     [word_of_int x, word_of_int (x div 256), word_of_int (x div 65536),
      word_of_int (x div 16777216)]"

definition bytes_int :: "8 word list \<Rightarrow> int" where
  "bytes_int bs =
     (let u = uint (bs ! 0) + 256 * uint (bs ! 1) + 65536 * uint (bs ! 2)
              + 16777216 * uint (bs ! 3)
      in if u < 2147483648 then u else u - 4294967296)"

text \<open>
  Reading a \<^verbatim>\<open>char\<close> of the buffer into an \<^verbatim>\<open>int\<close>: sign-extended where \<^verbatim>\<open>char\<close> is signed
  (x86), zero-extended where it is unsigned (ARM). The choice is a parameter.
\<close>

definition char_int :: "bool \<Rightarrow> 8 word \<Rightarrow> int" where
  "char_int char_signed b = (if char_signed then sint b else uint b)"

text \<open>
  \<^verbatim>\<open>tree_sitter_cangjie_external_scanner_serialize\<close>: the bytes written to the buffer; the
  returned \<^verbatim>\<open>offset\<close> is their number. Copying \<open>indent_stack_size\<close> entries out of the array
  reads past it when the size is not in \<open>0 .. 100\<close>.
\<close>

definition serialize :: "Scanner \<Rightarrow> fault + 8 word list" where
  "serialize scanner =
     (if 0 \<le> indent_stack_size scanner \<and> indent_stack_size scanner \<le> stack_capacity then
        Inr ([word_of_int (hash_count scanner), word_of_int (indent_stack_size scanner)]
             @ int_bytes (current_indent scanner)
             @ [if at_line_start scanner then 1 else 0]
             @ concat (map int_bytes (take (nat (indent_stack_size scanner)) (indent_stack scanner))))
      else Inl OutOfBoundsRead)"

text \<open>
  \<^verbatim>\<open>tree_sitter_cangjie_external_scanner_deserialize\<close>, field by field with the running
  \<^verbatim>\<open>offset\<close>; \<open>length buffer\<close> is the \<^verbatim>\<open>length\<close> argument. Each step returns the scanner and
  the offset after it.
\<close>

definition deserialize_hash_count :: "bool \<Rightarrow> 8 word list \<Rightarrow> Scanner \<times> nat \<Rightarrow> Scanner \<times> nat" where
  "deserialize_hash_count char_signed buffer st =
     (case st of (scanner, offset) \<Rightarrow>
        if length buffer > 0
        then (scanner\<lparr>hash_count := char_int char_signed (buffer ! offset)\<rparr>, offset + 1)
        else (scanner, offset))"

definition deserialize_stack_size :: "bool \<Rightarrow> 8 word list \<Rightarrow> Scanner \<times> nat \<Rightarrow> Scanner \<times> nat" where
  "deserialize_stack_size char_signed buffer st =
     (case st of (scanner, offset) \<Rightarrow>
        if length buffer > offset
        then (scanner\<lparr>indent_stack_size := char_int char_signed (buffer ! offset)\<rparr>, offset + 1)
        else (scanner, offset))"

definition deserialize_current_indent :: "8 word list \<Rightarrow> Scanner \<times> nat \<Rightarrow> Scanner \<times> nat" where
  "deserialize_current_indent buffer st =
     (case st of (scanner, offset) \<Rightarrow>
        if length buffer > offset + 4
        then (scanner\<lparr>current_indent := bytes_int (take 4 (drop offset buffer))\<rparr>, offset + 4)
        else (scanner, offset))"

definition deserialize_at_line_start :: "8 word list \<Rightarrow> Scanner \<times> nat \<Rightarrow> Scanner \<times> nat" where
  "deserialize_at_line_start buffer st =
     (case st of (scanner, offset) \<Rightarrow>
        if length buffer > offset
        then (scanner\<lparr>at_line_start := (buffer ! offset \<noteq> 0)\<rparr>, offset + 1)
        else (scanner, offset))"

text \<open>
  The last step copies \<open>indent_stack_size * sizeof(int)\<close> bytes into the array. The guard is
  computed in \<^verbatim>\<open>size_t\<close> (64 bits), so a negative size wraps around; a copy of more than
  100 entries writes past the array.
\<close>

fun entries_of :: "nat \<Rightarrow> 8 word list \<Rightarrow> int list" where
  "entries_of 0 bs = []"
| "entries_of (Suc n) bs = bytes_int (take 4 bs) # entries_of n (drop 4 bs)"

definition deserialize_indent_stack :: "8 word list \<Rightarrow> Scanner \<times> nat \<Rightarrow> fault + Scanner" where
  "deserialize_indent_stack buffer st =
     (case st of (scanner, offset) \<Rightarrow>
        if int (length buffer) > (int offset + indent_stack_size scanner * 4) mod 2 ^ 64
        then (if 0 \<le> indent_stack_size scanner \<and> indent_stack_size scanner \<le> stack_capacity
              then Inr (scanner\<lparr>indent_stack :=
                          entries_of (nat (indent_stack_size scanner)) (drop offset buffer)
                          @ drop (nat (indent_stack_size scanner)) (indent_stack scanner)\<rparr>)
              else Inl OutOfBoundsWrite)
        else Inr scanner)"

definition deserialize :: "bool \<Rightarrow> Scanner \<Rightarrow> 8 word list \<Rightarrow> fault + Scanner" where
  "deserialize char_signed scanner buffer =
     deserialize_indent_stack buffer
       (deserialize_at_line_start buffer
         (deserialize_current_indent buffer
           (deserialize_stack_size char_signed buffer
             (deserialize_hash_count char_signed buffer (scanner, 0)))))"

section \<open>Scanning (scanner.c, lines 91-208)\<close>

text \<open>Lines 95-103: the line terminator.\<close>

definition scan_newline :: "Scanner \<Rightarrow> TSLexer \<Rightarrow> bool \<times> Scanner \<times> TSLexer" where
  "scan_newline scanner lexer =
     (let lexer1 = advance (lexer\<lparr>result_symbol := Some NEWLINE\<rparr>);
          lexer2 = (if lookahead lexer1 = CHR 0x0A \<and> get_column lexer1 = 0
                    then advance lexer1 else lexer1)
      in (True, scanner\<lparr>at_line_start := True\<rparr>, lexer2))"

text \<open>Lines 108-116: the loop over leading spaces and tabs.\<close>

function skip_whitespace :: "TSLexer \<Rightarrow> int \<Rightarrow> TSLexer \<times> int" where
  "skip_whitespace lexer indent =
     (if lookahead lexer = CHR '' '' \<or> lookahead lexer = CHR 0x09
      then skip_whitespace (advance lexer)
             (if lookahead lexer = CHR 0x09 then indent + 4 else indent + 1)
      else (lexer, indent))"
  by pat_completeness auto
termination
  by (relation "measure (\<lambda>(lexer, indent). length (remaining lexer))")
     (auto simp: lookahead_def advance_def split: list.splits)

text \<open>Lines 142-144: popping the stack while its top exceeds the measured indent.\<close>

function pop_indents :: "int list \<Rightarrow> int \<Rightarrow> int \<Rightarrow> int" where
  "pop_indents stack stack_size indent =
     (if stack_size > 1 \<and> stack ! nat (stack_size - 1) > indent
      then pop_indents stack (stack_size - 1) indent
      else stack_size)"
  by pat_completeness auto
termination
  by (relation "measure (\<lambda>(stack, stack_size, indent). nat stack_size)") auto

text \<open>
  Lines 106-156. The block either returns from the scan call or falls through to the
  raw-string code with the scanner and lexer as they are then.
\<close>

datatype flow = Return bool Scanner TSLexer | Fallthrough Scanner TSLexer

definition scan_indentation :: "Scanner \<Rightarrow> TSLexer \<Rightarrow> (TokenType \<Rightarrow> bool) \<Rightarrow> fault + flow" where
  "scan_indentation scanner lexer0 valid_symbols =
     (case skip_whitespace lexer0 0 of (lexer, indent) \<Rightarrow>
        if lookahead lexer = CHR ''/'' \<and> int (get_column lexer) = indent mod 2 ^ 32
        then Inr (Return False (scanner\<lparr>at_line_start := False\<rparr>) lexer)
        else if lookahead lexer = CHR 0x0A \<or> lookahead lexer = CHR 0x0D
                \<or> lookahead lexer = CHR 0x00
        then Inr (Return False (scanner\<lparr>at_line_start := False\<rparr>) lexer)
        else if 1 \<le> indent_stack_size scanner \<and> indent_stack_size scanner \<le> stack_capacity
        then
          (let previous_indent = indent_stack scanner ! nat (indent_stack_size scanner - 1) in
           if indent > previous_indent \<and> valid_symbols INDENT
           then
             (if indent_stack_size scanner < stack_capacity
              then Inr (Return True
                     (scanner\<lparr>indent_stack :=
                                (indent_stack scanner)[nat (indent_stack_size scanner) := indent],
                              indent_stack_size := indent_stack_size scanner + 1,
                              current_indent := indent,
                              at_line_start := False\<rparr>)
                     (lexer\<lparr>result_symbol := Some INDENT\<rparr>))
              else Inl OutOfBoundsWrite)
           else if indent < previous_indent \<and> valid_symbols DEDENT
           then
             (let popped = scanner\<lparr>indent_stack_size :=
                             pop_indents (indent_stack scanner) (indent_stack_size scanner) indent\<rparr>
              in if indent_stack popped ! nat (indent_stack_size popped - 1) = indent
                 then Inr (Return True
                        (popped\<lparr>current_indent := indent, at_line_start := False\<rparr>)
                        (lexer\<lparr>result_symbol := Some DEDENT\<rparr>))
                 else Inr (Fallthrough
                        (popped\<lparr>current_indent := indent, at_line_start := False\<rparr>) lexer))
           else Inr (Fallthrough
                  (scanner\<lparr>current_indent := indent, at_line_start := False\<rparr>) lexer))
        else Inl OutOfBoundsRead)"

text \<open>Lines 162-165: counting the opening markers.\<close>

function count_hashes :: "TSLexer \<Rightarrow> int \<Rightarrow> TSLexer \<times> int" where
  "count_hashes lexer n =
     (if lookahead lexer = CHR ''#''
      then count_hashes (advance lexer) (n + 1)
      else (lexer, n))"
  by pat_completeness auto
termination
  by (relation "measure (\<lambda>(lexer, n). length (remaining lexer))")
     (auto simp: lookahead_def advance_def split: list.splits)

text \<open>Lines 186-190: counting at most \<open>hash_count\<close> markers after a quote.\<close>

function closing_hashes :: "TSLexer \<Rightarrow> int \<Rightarrow> int \<Rightarrow> TSLexer \<times> int" where
  "closing_hashes lexer closing_hash_count opening_hash_count =
     (if lookahead lexer = CHR ''#'' \<and> closing_hash_count < opening_hash_count
      then closing_hashes (advance lexer) (closing_hash_count + 1) opening_hash_count
      else (lexer, closing_hash_count))"
  by pat_completeness auto
termination
  by (relation "measure (\<lambda>(lexer, c, n). length (remaining lexer))")
     (auto simp: lookahead_def advance_def split: list.splits)

text \<open>Lines 181-199: the body of the literal, up to the closing quote and markers.\<close>

function scan_body :: "TSLexer \<Rightarrow> char \<Rightarrow> int \<Rightarrow> TSLexer \<times> bool" where
  "scan_body lexer quote opening_hash_count =
     (if lookahead lexer \<noteq> CHR 0x00
      then
        (if lookahead lexer = quote
         then
           (case closing_hashes (advance lexer) 0 opening_hash_count of
              (lexer1, closing_hash_count) \<Rightarrow>
                if closing_hash_count = opening_hash_count
                then (lexer1, True)
                else scan_body lexer1 quote opening_hash_count)
         else scan_body (advance lexer) quote opening_hash_count)
      else (lexer, False))"
  by pat_completeness auto

text \<open>Lines 158-208: the raw-string recogniser and the final decline.\<close>

definition scan_raw_string :: "Scanner \<Rightarrow> TSLexer \<Rightarrow> (TokenType \<Rightarrow> bool) \<Rightarrow> bool \<times> Scanner \<times> TSLexer" where
  "scan_raw_string scanner lexer0 valid_symbols =
     (if valid_symbols MULTI_LINE_RAW_STRING_LITERAL
      then
        (case count_hashes lexer0 0 of (lexer, opening_hash_count) \<Rightarrow>
           if opening_hash_count = 0 then (False, scanner, lexer)
           else if lookahead lexer \<noteq> quote_double \<and> lookahead lexer \<noteq> quote_single
           then (False, scanner, lexer)
           else
             (case scan_body (advance lexer) (lookahead lexer) opening_hash_count of
                (lexer1, found_closing) \<Rightarrow>
                  if found_closing
                  then (True, scanner,
                        lexer1\<lparr>result_symbol := Some MULTI_LINE_RAW_STRING_LITERAL\<rparr>)
                  else (False, scanner\<lparr>at_line_start := False\<rparr>, lexer1)))
      else (False, scanner\<lparr>at_line_start := False\<rparr>, lexer0))"

text \<open>
  \<^verbatim>\<open>tree_sitter_cangjie_external_scanner_scan\<close>: the returned flag, the scanner and the
  lexer after the call, or the fault of an array access out of bounds.
\<close>

definition scan :: "Scanner \<Rightarrow> TSLexer \<Rightarrow> (TokenType \<Rightarrow> bool) \<Rightarrow> fault + bool \<times> Scanner \<times> TSLexer" where
  "scan scanner lexer valid_symbols =
     (if valid_symbols NEWLINE \<and> (lookahead lexer = CHR 0x0A \<or> lookahead lexer = CHR 0x0D)
      then Inr (scan_newline scanner lexer)
      else if at_line_start scanner \<and> (valid_symbols INDENT \<or> valid_symbols DEDENT)
      then
        (case scan_indentation scanner lexer valid_symbols of
           Inl f \<Rightarrow> Inl f
         | Inr (Return accepted scanner1 lexer1) \<Rightarrow> Inr (accepted, scanner1, lexer1)
         | Inr (Fallthrough scanner1 lexer1) \<Rightarrow> Inr (scan_raw_string scanner1 lexer1 valid_symbols))
      else Inr (scan_raw_string scanner lexer valid_symbols))"

text \<open>One scan call as the host sees it: the token produced, if any, and the scanner after it.\<close>

definition scan_token :: "Scanner \<Rightarrow> TSLexer \<Rightarrow> (TokenType \<Rightarrow> bool) \<Rightarrow> fault + TokenType option \<times> Scanner" where
  "scan_token scanner lexer valid_symbols =
     (case scan scanner lexer valid_symbols of
        Inl f \<Rightarrow> Inl f
      | Inr (accepted, scanner1, lexer1) \<Rightarrow>
          Inr (if accepted then result_symbol lexer1 else None, scanner1))"

text \<open>
  A sequence of scan calls on one scanner, each with the lexer position and the acceptable
  tokens the host passes. The result lists, per call, the token and the stack after it.
\<close>

fun scan_calls :: "Scanner \<Rightarrow> (TSLexer \<times> (TokenType \<Rightarrow> bool)) list \<Rightarrow> fault + (TokenType option \<times> int list) list \<times> Scanner" where
  "scan_calls scanner [] = Inr ([], scanner)"
| "scan_calls scanner ((lexer, valid_symbols) # calls) =
     (case scan_token scanner lexer valid_symbols of
        Inl f \<Rightarrow> Inl f
      | Inr (token, scanner1) \<Rightarrow>
          (case scan_calls scanner1 calls of
             Inl f \<Rightarrow> Inl f
           | Inr (out, scanner2) \<Rightarrow> Inr ((token, stack_of scanner1) # out, scanner2)))"

definition emitted_tokens :: "Scanner \<Rightarrow> (TSLexer \<times> (TokenType \<Rightarrow> bool)) list \<Rightarrow> TokenType list" where
  "emitted_tokens scanner calls =
     (case scan_calls scanner calls of
        Inl f \<Rightarrow> []
      | Inr (out, scanner1) \<Rightarrow> concat (map (\<lambda>r. case fst r of None \<Rightarrow> [] | Some t \<Rightarrow> [t]) out))"

definition stack_progression :: "Scanner \<Rightarrow> (TSLexer \<times> (TokenType \<Rightarrow> bool)) list \<Rightarrow> int list list" where
  "stack_progression scanner calls =
     (case scan_calls scanner calls of
        Inl f \<Rightarrow> []
      | Inr (out, scanner1) \<Rightarrow> remdups_adj (stack_of scanner # map snd out))"

section \<open>Properties of states and inputs\<close>

text \<open>
  The invariant of the indentation stack: the array has its 100 slots, the depth is between
  1 and 100, the bottom entry is 0 and the entries increase strictly from bottom to top.
\<close>

definition stack_inv :: "Scanner \<Rightarrow> bool" where
  "stack_inv scanner \<longleftrightarrow>
     length (indent_stack scanner) = 100 \<and>
     1 \<le> indent_stack_size scanner \<and> indent_stack_size scanner \<le> stack_capacity \<and>
     indent_stack scanner ! 0 = 0 \<and>
     sorted_wrt (<) (stack_of scanner)"

text \<open>
  The depth is within the array, so that the read of the top (line 131) is defined; and
  the entry it reads.
\<close>

definition stack_in_bounds :: "Scanner \<Rightarrow> bool" where
  "stack_in_bounds scanner \<longleftrightarrow>
     length (indent_stack scanner) = 100 \<and>
     1 \<le> indent_stack_size scanner \<and> indent_stack_size scanner \<le> stack_capacity"

definition stack_top :: "Scanner \<Rightarrow> int" where
  "stack_top scanner = indent_stack scanner ! nat (indent_stack_size scanner - 1)"

text \<open>
  After the leading whitespace the line has content: it is neither a comment (lines 119-123)
  nor empty (lines 125-129).
\<close>

definition content_line :: "TSLexer \<Rightarrow> int \<Rightarrow> bool" where
  "content_line lexer indent \<longleftrightarrow>
     \<not> (lookahead lexer = CHR ''/'' \<and> int (get_column lexer) = indent mod 2 ^ 32) \<and>
     lookahead lexer \<noteq> CHR 0x0A \<and> lookahead lexer \<noteq> CHR 0x0D \<and> lookahead lexer \<noteq> CHR 0x00"

text \<open>
  A scan call that keeps the block level: it stands on a line terminator with NEWLINE
  acceptable (lines 95-103), or on a line whose leading whitespace measures \<open>level\<close>.
\<close>

definition equal_width_call :: "int \<Rightarrow> TSLexer \<times> (TokenType \<Rightarrow> bool) \<Rightarrow> bool" where
  "equal_width_call level call \<longleftrightarrow>
     (snd call NEWLINE \<and> (lookahead (fst call) = CHR 0x0A \<or> lookahead (fst call) = CHR 0x0D)) \<or>
     snd (skip_whitespace (fst call) 0) = level"

text \<open>The text holds the quote directly followed by \<open>n\<close> markers.\<close>

fun closes_early :: "char \<Rightarrow> nat \<Rightarrow> string \<Rightarrow> bool" where
  "closes_early quote n [] = False"
| "closes_early quote n (c # cs) =
     ((c = quote \<and> take n cs = replicate n (CHR ''#'')) \<or> closes_early quote n cs)"

text \<open>A literal: \<open>n\<close> markers, the quote, the body, the quote and \<open>n\<close> markers.\<close>

definition raw_literal :: "nat \<Rightarrow> char \<Rightarrow> string \<Rightarrow> string" where
  "raw_literal n quote body =
     replicate n (CHR ''#'') @ quote # body @ quote # replicate n (CHR ''#'')"

section \<open>Concrete states and inputs\<close>

text \<open>A lexer at the start of a text, and after the host has consumed \<open>k\<close> characters of it.\<close>

definition lexer_on :: "string \<Rightarrow> TSLexer" where
  "lexer_on text = \<lparr>remaining = text, column = 0, result_symbol = None\<rparr>"

fun consume :: "nat \<Rightarrow> TSLexer \<Rightarrow> TSLexer" where
  "consume 0 lexer = lexer"
| "consume (Suc k) lexer = consume k (advance lexer)"

definition lexer_at :: "string \<Rightarrow> nat \<Rightarrow> TSLexer" where
  "lexer_at text k = consume k (lexer_on text)"

definition all_valid :: "TokenType \<Rightarrow> bool" where
  "all_valid t = True"

text \<open>
  A scanner with the given stack (unused slots zero), cached indent and line-start flag,
  and the zeroed block of memory a scanner is created in.
\<close>

definition scanner_with :: "int list \<Rightarrow> int \<Rightarrow> bool \<Rightarrow> Scanner" where
  "scanner_with stack indent line_start =
     \<lparr>hash_count = 0,
      indent_stack = stack @ replicate (100 - length stack) 0,
      indent_stack_size = int (length stack),
      current_indent = indent,
      at_line_start = line_start\<rparr>"

definition zeroed_block :: Scanner where
  "zeroed_block =
     \<lparr>hash_count = 0, indent_stack = replicate 100 0, indent_stack_size = 0,
      current_indent = 0, at_line_start = False\<rparr>"

text \<open>
  Five lines with indentation widths 0, 2, 2, 4, 0 (spaces), and the scan calls of a host
  that asks at every line boundary and every line start, all four tokens acceptable; the
  last position is asked twice.
\<close>

definition scenario_text :: string where
  "scenario_text =
     ''a'' @ [CHR 0x0A] @ ''  b'' @ [CHR 0x0A] @ ''  c'' @ [CHR 0x0A] @ ''    d'' @ [CHR 0x0A] @ ''e''"

definition scenario_calls :: "(TSLexer \<times> (TokenType \<Rightarrow> bool)) list" where
  "scenario_calls =
     map (\<lambda>k. (lexer_at scenario_text k, all_valid)) [0, 1, 2, 5, 6, 9, 10, 15, 16, 16]"

text \<open>
  Lines that go deeper by one space each: \<open>n\<close> times a line boundary followed by a line
  of one more space than the line before, starting after a line of \<open>k\<close> spaces.
\<close>

fun nested_lines :: "nat \<Rightarrow> nat \<Rightarrow> (TSLexer \<times> (TokenType \<Rightarrow> bool)) list" where
  "nested_lines k 0 = []"
| "nested_lines k (Suc n) =
     (lexer_on (CHR 0x0A # ''x''), all_valid)
     # (lexer_on (replicate (Suc k) (CHR '' '') @ ''x''), all_valid)
     # nested_lines (Suc k) n"

text \<open>The body of the literal \<open>##"he said ""hi""#"##\<close>.\<close>

definition scenario_B_body :: string where
  "scenario_B_body = ''he said '' @ [quote_double, quote_double] @ ''hi'' @ [quote_double, quote_double] @ ''#''"

section \<open>Termination of the body loop\<close>

declare skip_whitespace.simps [simp del]
declare pop_indents.simps [simp del]
declare count_hashes.simps [simp del]
declare closing_hashes.simps [simp del]

lemma advance_length: "length (remaining (advance lexer)) \<le> length (remaining lexer)"
  by (simp add: advance_def split: list.splits)

lemma advance_length_less:
  "lookahead lexer \<noteq> CHR 0x00 \<Longrightarrow> length (remaining (advance lexer)) < length (remaining lexer)"
  by (simp add: advance_def lookahead_def split: list.splits)

lemma closing_hashes_length:
  "length (remaining (fst (closing_hashes lexer c n))) \<le> length (remaining lexer)"
proof (induction lexer c n rule: closing_hashes.induct)
  case (1 lexer c n)
  show ?case
  proof (cases "lookahead lexer = CHR ''#'' \<and> c < n")
    case True
    then have "closing_hashes lexer c n = closing_hashes (advance lexer) (c + 1) n"
      by (subst closing_hashes.simps) simp
    moreover have "length (remaining (fst (closing_hashes (advance lexer) (c + 1) n)))
                     \<le> length (remaining (advance lexer))"
      using 1 True by simp
    ultimately show ?thesis
      using advance_length [of lexer] by simp
  next
    case False
    then have "closing_hashes lexer c n = (lexer, c)"
      by (subst closing_hashes.simps) auto
    then show ?thesis by simp
  qed
qed

termination scan_body
proof (relation "measure (\<lambda>(lexer, quote, n). length (remaining lexer))")
  show "wf (measure (\<lambda>(lexer, quote, n). length (remaining lexer)))"
    by simp
next
  fix lexer :: TSLexer and quote :: char and n :: int and lexer1 c
  assume nz: "lookahead lexer \<noteq> CHR 0x00"
    and pair: "(lexer1, c) = closing_hashes (advance lexer) 0 n"
  have "lexer1 = fst (closing_hashes (advance lexer) 0 n)"
    using pair by (metis fst_conv)
  then have "length (remaining lexer1) \<le> length (remaining (advance lexer))"
    using closing_hashes_length [of "advance lexer" 0 n] by simp
  also have "\<dots> < length (remaining lexer)"
    using nz by (rule advance_length_less)
  finally show "((lexer1, quote, n), lexer, quote, n)
      \<in> measure (\<lambda>(lexer, quote, n). length (remaining lexer))"
    by simp
next
  fix lexer :: TSLexer and quote :: char and n :: int
  assume "lookahead lexer \<noteq> CHR 0x00"
  then show "((advance lexer, quote, n), lexer, quote, n)
      \<in> measure (\<lambda>(lexer, quote, n). length (remaining lexer))"
    using advance_length_less [of lexer] by simp
qed

declare scan_body.simps [simp del]

section \<open>The lexer and the marker loops\<close>

lemma remaining_advance: "remaining (advance lexer) = tl (remaining lexer)"
  by (simp add: advance_def split: list.splits)

lemma lookahead_Cons: "remaining lexer = c # cs \<Longrightarrow> lookahead lexer = c"
  by (simp add: lookahead_def)

lemma lookahead_Nil: "remaining lexer = [] \<Longrightarrow> lookahead lexer = CHR 0x00"
  by (simp add: lookahead_def)

lemma remaining_consume: "remaining (consume k lexer) = drop k (remaining lexer)"
  by (induction k arbitrary: lexer) (simp_all add: remaining_advance drop_Suc tl_drop)

lemma consume_add: "consume (a + b) lexer = consume b (consume a lexer)"
  by (induction a arbitrary: lexer) simp_all

lemma count_hashes_replicate:
  assumes "remaining lexer = replicate n (CHR ''#'') @ rest"
    and "rest = [] \<or> hd rest \<noteq> CHR ''#''"
  shows "count_hashes lexer c = (consume n lexer, c + int n)"
  using assms
proof (induction n arbitrary: lexer c)
  case 0
  then have "lookahead lexer \<noteq> CHR ''#''"
    by (cases rest) (auto simp: lookahead_def)
  then show ?case
    by (subst count_hashes.simps) simp
next
  case (Suc n)
  then have la: "lookahead lexer = CHR ''#''"
    by (simp add: lookahead_def)
  have "remaining (advance lexer) = replicate n (CHR ''#'') @ rest"
    using Suc.prems(1) by (simp add: remaining_advance)
  then have "count_hashes (advance lexer) (c + 1) = (consume n (advance lexer), c + 1 + int n)"
    using Suc.IH Suc.prems(2) by blast
  then show ?case
    using la by (subst count_hashes.simps) simp
qed

lemma closing_hashes_all:
  assumes "remaining lexer = replicate k (CHR ''#'') @ rest"
    and "n = c + int k"
  shows "closing_hashes lexer c n = (consume k lexer, n)"
  using assms
proof (induction k arbitrary: lexer c)
  case 0
  then show ?case
    by (subst closing_hashes.simps) simp
next
  case (Suc k)
  then have la: "lookahead lexer = CHR ''#''"
    by (simp add: lookahead_def)
  have "remaining (advance lexer) = replicate k (CHR ''#'') @ rest"
    using Suc.prems(1) by (simp add: remaining_advance)
  moreover have "n = (c + 1) + int k"
    using Suc.prems(2) by simp
  ultimately have "closing_hashes (advance lexer) (c + 1) n = (consume k (advance lexer), n)"
    by (rule Suc.IH)
  moreover have "c < n"
    using Suc.prems(2) by simp
  ultimately show ?case
    using la by (subst closing_hashes.simps) simp
qed

lemma closing_hashes_short:
  assumes "remaining lexer = replicate k (CHR ''#'') @ rest"
    and "rest = [] \<or> hd rest \<noteq> CHR ''#''"
    and "c + int k < n"
  shows "closing_hashes lexer c n = (consume k lexer, c + int k)"
  using assms
proof (induction k arbitrary: lexer c)
  case 0
  then have "lookahead lexer \<noteq> CHR ''#''"
    by (cases rest) (auto simp: lookahead_def)
  then show ?case
    by (subst closing_hashes.simps) simp
next
  case (Suc k)
  then have la: "lookahead lexer = CHR ''#''"
    by (simp add: lookahead_def)
  have "remaining (advance lexer) = replicate k (CHR ''#'') @ rest"
    using Suc.prems(1) by (simp add: remaining_advance)
  moreover have "(c + 1) + int k < n"
    using Suc.prems(3) by simp
  ultimately have "closing_hashes (advance lexer) (c + 1) n
                     = (consume k (advance lexer), (c + 1) + int k)"
    using Suc.IH Suc.prems(2) by blast
  moreover have "c < n"
    using Suc.prems(3) by simp
  ultimately show ?case
    using la by (subst closing_hashes.simps) simp
qed

lemma closes_early_drop: "closes_early quote n (drop k cs) \<Longrightarrow> closes_early quote n cs"
proof (induction cs arbitrary: k)
  case Nil
  then show ?case by simp
next
  case (Cons c cs)
  show ?case
  proof (cases k)
    case 0
    with Cons.prems show ?thesis by simp
  next
    case (Suc j)
    with Cons.prems have "closes_early quote n (drop j cs)" by simp
    then have "closes_early quote n cs" by (rule Cons.IH)
    then show ?thesis by simp
  qed
qed

lemma consume_advance: "consume k (advance lexer) = advance (consume k lexer)"
  by (induction k arbitrary: lexer) simp_all

lemma hash_run_split:
  "\<exists>k cs'. cs = replicate k (CHR ''#'') @ cs' \<and> (cs' = [] \<or> hd cs' \<noteq> CHR ''#'')"
proof -
  let ?p = "\<lambda>c. c = CHR ''#''"
  have "cs = takeWhile ?p cs @ dropWhile ?p cs" by simp
  moreover have "takeWhile ?p cs = replicate (length (takeWhile ?p cs)) (CHR ''#'')"
    by (induction cs) auto
  moreover have "dropWhile ?p cs = [] \<or> hd (dropWhile ?p cs) \<noteq> CHR ''#''"
    using hd_dropWhile [of ?p cs] by blast
  ultimately show ?thesis by metis
qed

lemma scan_body_closes:
  assumes "remaining lexer = body @ quote # replicate n (CHR ''#'') @ rest"
    and "quote \<noteq> CHR ''#''" and "quote \<noteq> CHR 0x00"
    and "CHR 0x00 \<notin> set body"
    and "\<not> closes_early quote n body"
    and "0 < n"
  shows "scan_body lexer quote (int n) = (consume (length body + 1 + n) lexer, True)"
  using assms(1,4,5)
proof (induction "length body" arbitrary: body lexer rule: less_induct)
  case less
  show ?case
  proof (cases body)
    case Nil
    then have rem: "remaining lexer = quote # replicate n (CHR ''#'') @ rest"
      using less.prems(1) by simp
    then have la: "lookahead lexer = quote"
      by (rule lookahead_Cons)
    have "remaining (advance lexer) = replicate n (CHR ''#'') @ rest"
      using rem by (simp add: remaining_advance)
    then have "closing_hashes (advance lexer) 0 (int n) = (consume n (advance lexer), int n)"
      by (rule closing_hashes_all) simp
    then show ?thesis
      using la assms(3) Nil by (subst scan_body.simps) simp
  next
    case (Cons c cs)
    then have rem: "remaining lexer = c # cs @ quote # replicate n (CHR ''#'') @ rest"
      using less.prems(1) by simp
    then have la: "lookahead lexer = c"
      by (rule lookahead_Cons)
    have c0: "c \<noteq> CHR 0x00" and cs0: "CHR 0x00 \<notin> set cs"
      using less.prems(2) Cons by auto
    have adv: "remaining (advance lexer) = cs @ quote # replicate n (CHR ''#'') @ rest"
      using rem by (simp add: remaining_advance)
    show ?thesis
    proof (cases "c = quote")
      case False
      have "\<not> closes_early quote n cs"
        using less.prems(3) Cons by simp
      then have "scan_body (advance lexer) quote (int n)
                   = (consume (length cs + 1 + n) (advance lexer), True)"
        using less.hyps [of cs "advance lexer"] adv cs0 Cons by simp
      then show ?thesis
        using la c0 False Cons by (subst scan_body.simps) simp
    next
      case True
      obtain k cs' where split: "cs = replicate k (CHR ''#'') @ cs'"
        and stop: "cs' = [] \<or> hd cs' \<noteq> CHR ''#''"
        using hash_run_split by blast
      have "take n cs \<noteq> replicate n (CHR ''#'')"
        using less.prems(3) Cons True by simp
      then have kn: "k < n"
        using split by (cases "k < n") (auto simp: take_replicate min_def)
      let ?rest = "cs' @ quote # replicate n (CHR ''#'') @ rest"
      have "remaining (advance lexer) = replicate k (CHR ''#'') @ ?rest"
        using adv split by simp
      moreover have "?rest = [] \<or> hd ?rest \<noteq> CHR ''#''"
        using stop assms(2) by (cases cs') auto
      moreover have "0 + int k < int n"
        using kn by simp
      ultimately have ch: "closing_hashes (advance lexer) 0 (int n)
                         = (consume k (advance lexer), 0 + int k)"
        by (rule closing_hashes_short)
      let ?lexer1 = "consume k (advance lexer)"
      have rem1: "remaining ?lexer1 = ?rest"
        using adv split by (simp add: remaining_consume)
      have "cs' = drop k cs"
        using split by simp
      then have "\<not> closes_early quote n cs'"
        using less.prems(3) Cons closes_early_drop [of quote n k cs] by auto
      moreover have "CHR 0x00 \<notin> set cs'"
        using cs0 split by auto
      moreover have "length cs' < length body"
        using Cons split by simp
      ultimately have "scan_body ?lexer1 quote (int n)
                         = (consume (length cs' + 1 + n) ?lexer1, True)"
        using less.hyps [of cs' ?lexer1] rem1 by simp
      moreover have "consume (length cs' + 1 + n) ?lexer1 = consume (length body + 1 + n) lexer"
      proof -
        have "length body + 1 + n = Suc (k + (length cs' + 1 + n))"
          using Cons split by simp
        then show ?thesis
          by (simp add: consume_add consume_advance)
      qed
      ultimately show ?thesis
        using la c0 True ch kn by (subst scan_body.simps) simp
    qed
  qed
qed

section \<open>Scenario A: five lines of widths 0, 2, 2, 4, 0\<close>

lemma stack_of_scanner_with:
  "length stack \<le> 100 \<Longrightarrow> stack_of (scanner_with stack indent line_start) = stack"
  by (simp add: stack_of_def scanner_with_def)

lemma create_zeroed_block: "create (Some zeroed_block) = Some (scanner_with [0] 0 True)"
  by code_simp

lemma scenario_call_0:
  "scan_token (scanner_with [0] 0 True) (lexer_at scenario_text 0) all_valid
     = Inr (None, scanner_with [0] 0 False)"
  by code_simp

lemma scenario_call_1:
  "scan_token (scanner_with [0] 0 False) (lexer_at scenario_text 1) all_valid
     = Inr (Some NEWLINE, scanner_with [0] 0 True)"
  by code_simp

lemma scenario_call_2:
  "scan_token (scanner_with [0] 0 True) (lexer_at scenario_text 2) all_valid
     = Inr (Some INDENT, scanner_with [0, 2] 2 False)"
  by code_simp

lemma scenario_call_3:
  "scan_token (scanner_with [0, 2] 2 False) (lexer_at scenario_text 5) all_valid
     = Inr (Some NEWLINE, scanner_with [0, 2] 2 True)"
  by code_simp

lemma scenario_call_4:
  "scan_token (scanner_with [0, 2] 2 True) (lexer_at scenario_text 6) all_valid
     = Inr (None, scanner_with [0, 2] 2 False)"
  by code_simp

lemma scenario_call_5:
  "scan_token (scanner_with [0, 2] 2 False) (lexer_at scenario_text 9) all_valid
     = Inr (Some NEWLINE, scanner_with [0, 2] 2 True)"
  by code_simp

lemma scenario_call_6:
  "scan_token (scanner_with [0, 2] 2 True) (lexer_at scenario_text 10) all_valid
     = Inr (Some INDENT, scanner_with [0, 2, 4] 4 False)"
  by code_simp

lemma scenario_call_7:
  "scan_token (scanner_with [0, 2, 4] 4 False) (lexer_at scenario_text 15) all_valid
     = Inr (Some NEWLINE, scanner_with [0, 2, 4] 4 True)"
  by code_simp

lemma scenario_call_8:
  "scan_token (scanner_with [0, 2, 4] 4 True) (lexer_at scenario_text 16) all_valid
     = Inr (Some DEDENT, (scanner_with [0, 2, 4] 0 False)\<lparr>indent_stack_size := 1\<rparr>)"
  by code_simp

lemma scenario_call_9:
  "scan_token ((scanner_with [0, 2, 4] 0 False)\<lparr>indent_stack_size := 1\<rparr>)
       (lexer_at scenario_text 16) all_valid
     = Inr (None, (scanner_with [0, 2, 4] 0 False)\<lparr>indent_stack_size := 1\<rparr>)"
  by code_simp

lemma stack_after_dedent:
  "stack_of ((scanner_with [0, 2, 4] 0 False)\<lparr>indent_stack_size := 1\<rparr>) = [0]"
  by (simp add: stack_of_def scanner_with_def)

lemma scenario_run:
  "scan_calls (scanner_with [0] 0 True) scenario_calls =
     Inr ([(None, [0]), (Some NEWLINE, [0]), (Some INDENT, [0, 2]), (Some NEWLINE, [0, 2]),
           (None, [0, 2]), (Some NEWLINE, [0, 2]), (Some INDENT, [0, 2, 4]),
           (Some NEWLINE, [0, 2, 4]), (Some DEDENT, [0]), (None, [0])],
          (scanner_with [0, 2, 4] 0 False)\<lparr>indent_stack_size := 1\<rparr>)"
  by (simp add: scenario_calls_def scenario_call_0 scenario_call_1 [unfolded One_nat_def] scenario_call_2
      scenario_call_3 scenario_call_4 scenario_call_5 scenario_call_6 scenario_call_7
      scenario_call_8 scenario_call_9 stack_of_scanner_with stack_after_dedent)

text \<open>
  Claim C2, as stated, fails: on the five lines of widths 0, 2, 2, 4, 0 the scanner does not
  emit NEWLINE, INDENT, NEWLINE, INDENT, NEWLINE, DEDENT, DEDENT. The return to width 0
  gives a single DEDENT, and the stack never passes through \<open>[0, 2]\<close> on the way down.
\<close>

theorem scenario_A_one_dedent:
  "emitted_tokens (scanner_with [0] 0 True) scenario_calls
     \<noteq> [NEWLINE, INDENT, NEWLINE, INDENT, NEWLINE, DEDENT, DEDENT] \<and>
   count_list (emitted_tokens (scanner_with [0] 0 True) scenario_calls) DEDENT = 1 \<and>
   stack_progression (scanner_with [0] 0 True) scenario_calls
     \<noteq> [[0], [0, 2], [0, 2, 4], [0, 2], [0]]"
  by (simp add: emitted_tokens_def stack_progression_def scenario_run stack_of_scanner_with)

text \<open>
  Claim C2, amended: on that input the scanner created on a zeroed block emits NEWLINE at each
  of the four line boundaries, INDENT at the first line of width 2 and at the line of width
  4, nothing at the second line of width 2, and exactly one DEDENT at the return to width
  0, whose call pops both levels; the next call at the same position declines. The stack
  goes \<open>[0]\<close>, \<open>[0, 2]\<close>, \<open>[0, 2, 4]\<close>, \<open>[0]\<close>.
\<close>

theorem scenario_A_tokens:
  "create (Some zeroed_block) = Some (scanner_with [0] 0 True) \<and>
   emitted_tokens (scanner_with [0] 0 True) scenario_calls
     = [NEWLINE, INDENT, NEWLINE, NEWLINE, INDENT, NEWLINE, DEDENT] \<and>
   stack_progression (scanner_with [0] 0 True) scenario_calls
     = [[0], [0, 2], [0, 2, 4], [0]] \<and>
   map fst (case scan_calls (scanner_with [0] 0 True) scenario_calls of Inr (out, s) \<Rightarrow> out | Inl f \<Rightarrow> [])
     = [None, Some NEWLINE, Some INDENT, Some NEWLINE, None, Some NEWLINE, Some INDENT,
        Some NEWLINE, Some DEDENT, None]"
  by (simp add: create_zeroed_block emitted_tokens_def stack_progression_def scenario_run stack_of_scanner_with)

section \<open>The raw-string recogniser\<close>

lemma scan_raw_string_literal:
  assumes "valid_symbols MULTI_LINE_RAW_STRING_LITERAL"
    and "0 < n"
    and "quote = quote_double \<or> quote = quote_single"
    and "remaining lexer = raw_literal n quote body @ rest"
    and "CHR 0x00 \<notin> set body"
    and "\<not> closes_early quote n body"
  shows "scan_raw_string scanner lexer valid_symbols =
           (True, scanner,
            (consume (length (raw_literal n quote body)) lexer)
              \<lparr>result_symbol := Some MULTI_LINE_RAW_STRING_LITERAL\<rparr>)"
proof -
  have q: "quote \<noteq> CHR ''#''" "quote \<noteq> CHR 0x00"
    using assms(3) by (auto simp: quote_double_def quote_single_def)
  let ?tail = "body @ quote # replicate n (CHR ''#'') @ rest"
  have rem: "remaining lexer = replicate n (CHR ''#'') @ (quote # ?tail)"
    using assms(4) by (simp add: raw_literal_def)
  have "quote # ?tail = [] \<or> hd (quote # ?tail) \<noteq> CHR ''#''"
    using q by simp
  with rem have ch: "count_hashes lexer 0 = (consume n lexer, 0 + int n)"
    by (rule count_hashes_replicate)
  let ?lexer1 = "consume n lexer"
  have rem1: "remaining ?lexer1 = quote # ?tail"
    using rem by (simp add: remaining_consume)
  then have la: "lookahead ?lexer1 = quote"
    by (rule lookahead_Cons)
  have "remaining (advance ?lexer1) = ?tail"
    using rem1 by (simp add: remaining_advance)
  then have body: "scan_body (advance ?lexer1) quote (int n)
                     = (consume (length body + 1 + n) (advance ?lexer1), True)"
    using q assms(5,6,2) by (rule scan_body_closes)
  have "consume (length body + 1 + n) (advance ?lexer1)
          = consume (length (raw_literal n quote body)) lexer"
  proof -
    have "length (raw_literal n quote body) = n + Suc (length body + 1 + n)"
      by (simp add: raw_literal_def)
    then show ?thesis
      by (simp add: consume_add consume_advance)
  qed
  with body ch la assms(1,2,3) show ?thesis
    by (auto simp: scan_raw_string_def)
qed

lemma scan_reaches_raw_string:
  assumes "\<not> (at_line_start scanner \<and> (valid_symbols INDENT \<or> valid_symbols DEDENT))"
    and "lookahead lexer \<noteq> CHR 0x0A" and "lookahead lexer \<noteq> CHR 0x0D"
  shows "scan scanner lexer valid_symbols = Inr (scan_raw_string scanner lexer valid_symbols)"
  using assms by (auto simp: scan_def)

text \<open>
  Claim C5, as stated, fails for a body that holds the quote followed by more than \<open>n\<close>
  markers, or a NUL character: the literal \<open>#"a"##"#\<close> (one marker) is closed by the
  first inner \<open>"#\<close>, three characters before its end, and a literal with a NUL
  character in its body is not recognised at all.
\<close>

theorem raw_string_closes_early:
  "scan (scanner_with [0] 0 False)
        (lexer_on (raw_literal 1 quote_double (''a'' @ [quote_double] @ ''##''))) all_valid
     = Inr (True, scanner_with [0] 0 False,
            \<lparr>remaining = ''#'' @ [quote_double] @ ''#'', column = 5,
             result_symbol = Some MULTI_LINE_RAW_STRING_LITERAL\<rparr>) \<and>
   scan (scanner_with [0] 0 False)
        (lexer_on (raw_literal 1 quote_double [CHR 0x00])) all_valid
     = Inr (False, scanner_with [0] 0 False,
            \<lparr>remaining = [CHR 0x00, quote_double, CHR ''#''], column = 2,
             result_symbol = None\<rparr>)"
  by code_simp

text \<open>
  Claim C5, amended: for every marker count \<open>n \<ge> 1\<close> and quote character (double or
  single), an input that starts with \<open>n\<close> markers, the quote, a body, the quote and
  \<open>n\<close> markers is recognised by the raw-string recogniser as one token that spans exactly
  this literal, whatever follows it, provided the body holds no NUL character and no quote
  directly followed by \<open>n\<close> or more markers; inner quotes followed by fewer than \<open>n\<close>
  markers are body content. The scan call returns this token whenever it is not at a line
  start with INDENT or DEDENT acceptable.
\<close>

theorem raw_string_recognized:
  assumes "valid_symbols MULTI_LINE_RAW_STRING_LITERAL"
    and "0 < n"
    and "quote = quote_double \<or> quote = quote_single"
    and "remaining lexer = raw_literal n quote body @ rest"
    and "CHR 0x00 \<notin> set body"
    and "\<not> closes_early quote n body"
  shows "scan_raw_string scanner lexer valid_symbols =
           (True, scanner,
            (consume (length (raw_literal n quote body)) lexer)
              \<lparr>result_symbol := Some MULTI_LINE_RAW_STRING_LITERAL\<rparr>) \<and>
         remaining (consume (length (raw_literal n quote body)) lexer) = rest \<and>
         (\<not> (at_line_start scanner \<and> (valid_symbols INDENT \<or> valid_symbols DEDENT)) \<longrightarrow>
            scan scanner lexer valid_symbols =
              Inr (True, scanner,
                   (consume (length (raw_literal n quote body)) lexer)
                     \<lparr>result_symbol := Some MULTI_LINE_RAW_STRING_LITERAL\<rparr>))"
proof -
  have lit: "scan_raw_string scanner lexer valid_symbols =
           (True, scanner,
            (consume (length (raw_literal n quote body)) lexer)
              \<lparr>result_symbol := Some MULTI_LINE_RAW_STRING_LITERAL\<rparr>)"
    using assms by (rule scan_raw_string_literal)
  have "remaining lexer = CHR ''#'' # replicate (n - 1) (CHR ''#'') @ quote # body @ quote # replicate n (CHR ''#'') @ rest"
    using assms(2,4) by (cases n) (simp_all add: raw_literal_def)
  then have la: "lookahead lexer = CHR ''#''"
    by (rule lookahead_Cons)
  have span: "remaining (consume (length (raw_literal n quote body)) lexer) = rest"
    using assms(4) by (simp add: remaining_consume)
  show ?thesis
    using lit span la scan_reaches_raw_string [of scanner valid_symbols lexer]
    by simp
qed

text \<open>
  Scenario B: the literal \<open>##"he said ""hi""#"##\<close> is one token; the inner quotes are
  followed by fewer than two markers.
\<close>

theorem raw_string_recognized_witness:
  "scan_raw_string (scanner_with [0] 0 False)
       (lexer_on (raw_literal 2 quote_double scenario_B_body)) all_valid
     = (True, scanner_with [0] 0 False,
        \<lparr>remaining = [], column = 21, result_symbol = Some MULTI_LINE_RAW_STRING_LITERAL\<rparr>) \<and>
   scan (scanner_with [0] 0 False)
       (lexer_on (raw_literal 2 quote_double scenario_B_body)) all_valid
     = Inr (True, scanner_with [0] 0 False,
        \<lparr>remaining = [], column = 21, result_symbol = Some MULTI_LINE_RAW_STRING_LITERAL\<rparr>)"
proof -
  have v: "all_valid MULTI_LINE_RAW_STRING_LITERAL"
    by (simp add: all_valid_def)
  have n: "0 < (2::nat)" by simp
  have q: "quote_double = quote_double \<or> quote_double = quote_single" by simp
  have r: "remaining (lexer_on (raw_literal 2 quote_double scenario_B_body))
             = raw_literal 2 quote_double scenario_B_body @ []"
    by (simp add: lexer_on_def)
  have z: "CHR 0x00 \<notin> set scenario_B_body"
    by code_simp
  have e: "\<not> closes_early quote_double 2 scenario_B_body"
    by code_simp
  have l: "\<not> (at_line_start (scanner_with [0] 0 False) \<and> (all_valid INDENT \<or> all_valid DEDENT))"
    by (simp add: scanner_with_def)
  have c: "consume (length (raw_literal 2 quote_double scenario_B_body))
             (lexer_on (raw_literal 2 quote_double scenario_B_body))
           = \<lparr>remaining = [], column = 21, result_symbol = None\<rparr>"
    by code_simp
  show ?thesis
    using raw_string_recognized [where valid_symbols = all_valid and n = 2
        and quote = quote_double and body = scenario_B_body and rest = "[]"
        and lexer = "lexer_on (raw_literal 2 quote_double scenario_B_body)"
        and scanner = "scanner_with [0] 0 False"] v n q r z e l c
    by simp
qed

section \<open>The line terminator\<close>

lemma consume_one: "consume 1 lexer = advance lexer"
  by simp

lemma consume_two: "consume 2 lexer = advance (advance lexer)"
  by (simp add: numeral_2_eq_2)

text \<open>
  Claim C4 fails on the code: with NEWLINE acceptable, one scan call on two consecutive line
  feeds consumes both for a single NEWLINE token. Lines 97-100 look for a line feed after
  the terminator they consumed, as a fold of carriage return and line feed would, but test
  the column instead of the character consumed.
\<close>

theorem newline_consumes_two_line_feeds:
  "scan (scanner_with [0] 0 False) (lexer_on [CHR 0x0A, CHR 0x0A, CHR ''x'']) all_valid
     = Inr (True, scanner_with [0] 0 True,
            \<lparr>remaining = ''x'', column = 0, result_symbol = Some NEWLINE\<rparr>)"
  by code_simp

text \<open>
  What lines 95-103 do on every state and lexer: when NEWLINE is acceptable and the
  lookahead is a line feed or a carriage return, the scan call emits one NEWLINE token,
  sets \<open>at_line_start\<close> and consumes that character; it consumes a second character
  exactly when the consumed character was a line feed and the next one is a line feed too
  (the column is 0 after a line feed and never after a carriage return).
\<close>

theorem newline_consumption:
  assumes "valid_symbols NEWLINE"
    and "lookahead lexer = CHR 0x0A \<or> lookahead lexer = CHR 0x0D"
  shows "scan scanner lexer valid_symbols =
           Inr (True, scanner\<lparr>at_line_start := True\<rparr>,
                consume (if take 2 (remaining lexer) = [CHR 0x0A, CHR 0x0A] then 2 else 1)
                  (lexer\<lparr>result_symbol := Some NEWLINE\<rparr>))"
proof (cases "remaining lexer")
  case Nil
  then have "lookahead lexer = CHR 0x00"
    by (rule lookahead_Nil)
  with assms(2) show ?thesis by simp
next
  case (Cons c cs)
  then have c: "c = CHR 0x0A \<or> c = CHR 0x0D"
    using assms(2) by (simp add: lookahead_def)
  show ?thesis
  proof (cases cs)
    case Nil
    with Cons c assms show ?thesis
      by (auto simp: scan_def scan_newline_def advance_def lookahead_def get_column_def
          consume_one)
  next
    case (Cons d ds)
    with \<open>remaining lexer = c # cs\<close> c assms show ?thesis
      by (auto simp: scan_def scan_newline_def advance_def lookahead_def get_column_def
          consume_one consume_two)
  qed
qed

text \<open>
  A carriage return followed by a line feed: the call consumes the carriage return only,
  since the column after it is not 0.
\<close>

theorem newline_consumption_witness:
  "scan (scanner_with [0, 2] 2 False)
        (lexer_at (''ab'' @ [CHR 0x0D, CHR 0x0A] @ ''  c'') 2) all_valid
     = Inr (True, scanner_with [0, 2] 2 True,
            \<lparr>remaining = CHR 0x0A # ''  c'', column = 3, result_symbol = Some NEWLINE\<rparr>)"
proof -
  let ?lexer = "lexer_at (''ab'' @ [CHR 0x0D, CHR 0x0A] @ ''  c'') 2"
  have v: "all_valid NEWLINE"
    by (simp add: all_valid_def)
  have la: "lookahead ?lexer = CHR 0x0A \<or> lookahead ?lexer = CHR 0x0D"
    by code_simp
  have r: "consume (if take 2 (remaining ?lexer) = [CHR 0x0A, CHR 0x0A] then 2 else 1)
             (?lexer\<lparr>result_symbol := Some NEWLINE\<rparr>)
           = \<lparr>remaining = CHR 0x0A # ''  c'', column = 3, result_symbol = Some NEWLINE\<rparr>"
    by code_simp
  have s: "(scanner_with [0, 2] 2 False)\<lparr>at_line_start := True\<rparr> = scanner_with [0, 2] 2 True"
    by (simp add: scanner_with_def)
  show ?thesis
    using newline_consumption [of all_valid ?lexer "scanner_with [0, 2] 2 False"] v la r s
    by simp
qed

section \<open>Deserializing a serialized state\<close>

lemma char_int_small:
  assumes "0 \<le> x" and "x \<le> 100"
  shows "char_int char_signed (word_of_int x :: 8 word) = x"
proof (cases char_signed)
  case True
  have "sint (word_of_int x :: 8 word) = x"
    using assms by (simp add: int_word_sint)
  with True show ?thesis by (simp add: char_int_def)
next
  case False
  have "uint (word_of_int x :: 8 word) = x"
    using assms by (simp add: uint_word_of_int)
  with False show ?thesis by (simp add: char_int_def)
qed

lemma length_int_bytes: "length (int_bytes x) = 4"
  by (simp add: int_bytes_def)

lemma length_concat_int_bytes: "length (concat (map int_bytes xs)) = 4 * length xs"
  by (induction xs) (simp_all add: length_int_bytes)

lemma serialize_length:
  assumes "serialize scanner = Inr buffer" and "length (indent_stack scanner) = 100"
  shows "length buffer = 7 + 4 * nat (indent_stack_size scanner)"
    and "0 \<le> indent_stack_size scanner" and "indent_stack_size scanner \<le> 100"
    and "buffer ! 1 = word_of_int (indent_stack_size scanner)"
  using assms
  by (auto simp: serialize_def stack_capacity_def length_int_bytes length_concat_int_bytes
      split: if_splits)

lemma mod_split_256:
  fixes x :: int
  assumes "0 \<le> c"
  shows "x mod (256 * c) = 256 * (x div 256 mod c) + x mod 256"
  using assms by (rule zmod_zmult2_eq)

lemma four_bytes_sum:
  fixes xm :: int
  assumes "xm = 256 * m1 + a0"
    and "m1 = 256 * m2 + a1"
    and "m2 = 256 * a3 + a2"
  shows "a0 + 256 * a1 + 65536 * a2 + 16777216 * a3 = xm"
  using assms by (simp add: algebra_simps)

lemma four_bytes_mod:
  fixes x :: int
  shows "x mod 256 + 256 * (x div 256 mod 256) + 65536 * (x div 65536 mod 256)
           + 16777216 * (x div 16777216 mod 256) = x mod 4294967296"
proof -
  have a: "x div 65536 = x div 256 div 256"
    using zdiv_zmult2_eq [of 256 x 256] by simp
  have b: "x div 16777216 = x div 256 div 256 div 256"
    using zdiv_zmult2_eq [of 65536 x 256] zdiv_zmult2_eq [of 256 "x div 256" 256] by simp
  have f1: "x mod 4294967296 = 256 * (x div 256 mod 16777216) + x mod 256"
    using mod_split_256 [of 16777216 x] by simp
  have f2: "x div 256 mod 16777216 = 256 * (x div 256 div 256 mod 65536) + x div 256 mod 256"
    using mod_split_256 [of 65536 "x div 256"] by simp
  have f3: "x div 256 div 256 mod 65536
              = 256 * (x div 256 div 256 div 256 mod 256) + x div 256 div 256 mod 256"
    using mod_split_256 [of 256 "x div 256 div 256"] by simp
  show ?thesis
    unfolding a b using f1 f2 f3 by (rule four_bytes_sum)
qed

lemma bytes_int_unfold:
  "bytes_int (int_bytes x) =
     (let u = x mod 256 + 256 * (x div 256 mod 256) + 65536 * (x div 65536 mod 256)
           + 16777216 * (x div 16777216 mod 256)
      in if u < 2147483648 then u else u - 4294967296)"
  by (simp add: bytes_int_def int_bytes_def uint_word_of_int)

lemma bytes_int_int_bytes:
  assumes "- 2147483648 \<le> x" and "x < 2147483648"
  shows "bytes_int (int_bytes x) = x"
proof (cases "0 \<le> x")
  case True
  then have "x mod 4294967296 = x"
    using assms(2) by simp
  then show ?thesis
    unfolding bytes_int_unfold four_bytes_mod Let_def using assms(2) by simp
next
  case False
  have "x mod 4294967296 = (x + 4294967296) mod 4294967296"
    by (rule mod_add_self2 [symmetric])
  also have "\<dots> = x + 4294967296"
    using assms(1) False by (intro mod_pos_pos_trivial) simp_all
  finally have "x mod 4294967296 = x + 4294967296" .
  then show ?thesis
    unfolding bytes_int_unfold four_bytes_mod Let_def using assms(1) False by simp
qed

text \<open>
  What deserializing a serialized state does restore: the depth, the cached indent and
  the line-start flag, and a hash count that fits a \<^verbatim>\<open>char\<close>.
\<close>

lemma deserialize_serialize_header:
  assumes "serialize scanner = Inr buffer"
    and "length (indent_stack scanner) = 100"
    and "- 2147483648 \<le> current_indent scanner" and "current_indent scanner < 2147483648"
    and "0 \<le> hash_count scanner" and "hash_count scanner \<le> 100"
  shows "deserialize char_signed target buffer =
           Inr (target\<lparr>hash_count := hash_count scanner,
                         indent_stack_size := indent_stack_size scanner,
                         current_indent := current_indent scanner,
                         at_line_start := at_line_start scanner\<rparr>)"
proof -
  let ?entries = "concat (map int_bytes
      (take (nat (indent_stack_size scanner)) (indent_stack scanner)))"
  have size: "0 \<le> indent_stack_size scanner" "indent_stack_size scanner \<le> 100"
    using assms(1) by (auto simp: serialize_def stack_capacity_def split: if_splits)
  have buf: "buffer = word_of_int (hash_count scanner) # word_of_int (indent_stack_size scanner)
                # int_bytes (current_indent scanner)
                @ (if at_line_start scanner then 1 else 0) # ?entries"
    using assms(1) by (auto simp: serialize_def split: if_splits)
  have len: "length buffer = 7 + 4 * nat (indent_stack_size scanner)"
    using size assms(2) by (simp add: buf length_int_bytes length_concat_int_bytes)
  have b0: "buffer ! 0 = word_of_int (hash_count scanner)"
    and b1: "buffer ! Suc 0 = word_of_int (indent_stack_size scanner)"
    by (simp_all add: buf)
  have b2: "take 4 (drop (Suc (Suc 0)) buffer) = int_bytes (current_indent scanner)"
    by (simp add: buf length_int_bytes)
  have b6: "(buffer ! 6 \<noteq> 0) = at_line_start scanner"
  proof -
    have "buffer ! 6 = (drop 2 buffer) ! 4"
      using len by simp
    also have "drop 2 buffer = int_bytes (current_indent scanner)
                 @ (if at_line_start scanner then 1 else 0) # ?entries"
      by (simp add: buf numeral_2_eq_2)
    also have "\<dots> ! 4 = (if at_line_start scanner then 1 else 0)"
      by (simp add: nth_append length_int_bytes)
    finally show ?thesis by simp
  qed
  have guard: "\<not> int (length buffer) > (int 7 + indent_stack_size scanner * 4) mod 2 ^ 64"
  proof -
    have "(7 + indent_stack_size scanner * 4) mod 2 ^ 64 = 7 + indent_stack_size scanner * 4"
      using size by simp
    then show ?thesis
      using len size by simp
  qed
  show ?thesis
    using len guard
    by (simp add: deserialize_def deserialize_hash_count_def deserialize_stack_size_def
        deserialize_current_indent_def deserialize_at_line_start_def
        deserialize_indent_stack_def b0 b1 b2 b6 char_int_small size assms(5,6)
        bytes_int_int_bytes assms(3,4))
qed

text \<open>
  Claim C1 fails on the code: for every scanner that can be serialized, deserializing its
  bytes into any target restores the depth but never the stack entries. The guard of line
  85 asks for more bytes than the buffer holds (\<open>length > offset + size * 4\<close>, where the
  buffer has exactly \<open>offset + size * 4\<close>), so the array of the target is left as it was.
\<close>

theorem deserialize_keeps_target_stack:
  assumes "serialize scanner = Inr buffer"
    and "length (indent_stack scanner) = 100"
  shows "\<exists>restored. deserialize char_signed target buffer = Inr restored \<and>
           indent_stack restored = indent_stack target \<and>
           indent_stack_size restored = indent_stack_size scanner"
proof -
  note len = serialize_length [OF assms]
  have size: "char_int char_signed (buffer ! 1) = indent_stack_size scanner"
    using len by (simp add: char_int_small)
  have "(7 + indent_stack_size scanner * 4) mod 2 ^ 64 = 7 + indent_stack_size scanner * 4"
    using len(2,3) by simp
  then have "\<not> int (length buffer) > (int 7 + indent_stack_size scanner * 4) mod 2 ^ 64"
    using len(1,2) by simp
  then show ?thesis
    using len(1) size
    by (simp add: deserialize_def deserialize_hash_count_def deserialize_stack_size_def
        deserialize_current_indent_def deserialize_at_line_start_def
        deserialize_indent_stack_def)
qed

text \<open>
  A scanner with the stack \<open>[0, 2]\<close>, restored into a freshly created one, comes back with
  the stack \<open>[0, 0]\<close>.
\<close>

theorem deserialize_keeps_target_stack_witness:
  "stack_of (scanner_with [0, 2] 2 False) = [0, 2] \<and>
   (\<exists>restored. deserialize True (scanner_with [0] 0 True)
                   [0, 2, 2, 0, 0, 0, 0, 0, 0, 0, 0, 2, 0, 0, 0] = Inr restored \<and>
               stack_of restored = [0, 0])"
proof -
  have s: "serialize (scanner_with [0, 2] 2 False)
             = Inr [0, 2, 2, 0, 0, 0, 0, 0, 0, 0, 0, 2, 0, 0, 0]"
    by code_simp
  have l: "length (indent_stack (scanner_with [0, 2] 2 False)) = 100"
    by (simp add: scanner_with_def)
  obtain restored where r: "deserialize True (scanner_with [0] 0 True)
        [0, 2, 2, 0, 0, 0, 0, 0, 0, 0, 0, 2, 0, 0, 0] = Inr restored"
      "indent_stack restored = indent_stack (scanner_with [0] 0 True)"
      "indent_stack_size restored = indent_stack_size (scanner_with [0, 2] 2 False)"
    using deserialize_keeps_target_stack [OF s l, of True "scanner_with [0] 0 True"] by blast
  have "stack_of restored = [0, 0]"
    using r(2,3) by (simp add: stack_of_def scanner_with_def numeral_2_eq_2)
  with r(1) show ?thesis
    by (simp add: stack_of_scanner_with)
qed

lemma size_guard_two_bytes:
  assumes "- 128 \<le> k" and "k < 256"
  shows "2 \<le> (2 + k * 4) mod (2 ^ 64 :: int)"
proof (cases "0 \<le> k")
  case True
  then have "(2 + k * 4) mod (2 ^ 64 :: int) = 2 + k * 4"
    using assms by simp
  with True show ?thesis by simp
next
  case False
  have "(2 + k * 4) mod (2 ^ 64 :: int) = (2 + k * 4 + 2 ^ 64) mod 2 ^ 64"
    by (rule mod_add_self2 [symmetric])
  also have "\<dots> = 2 + k * 4 + 2 ^ 64"
    using assms False by (intro mod_pos_pos_trivial) simp_all
  finally show ?thesis
    using assms by simp
qed

lemma deserialize_two_bytes:
  "deserialize char_signed scanner [a, b]
     = Inr (scanner\<lparr>hash_count := char_int char_signed a,
                      indent_stack_size := char_int char_signed b\<rparr>)"
proof -
  have "- 128 \<le> uint b"
    by (rule order_trans [where y = 0]) simp_all
  then have "- 128 \<le> char_int char_signed b" and "char_int char_signed b < 256"
    using sint_ge [of b] sint_lt [of b] uint_lt2p [of b]
    by (simp_all add: char_int_def)
  then have "2 \<le> (2 + char_int char_signed b * 4) mod (2 ^ 64 :: int)"
    by (rule size_guard_two_bytes)
  then have "((2 + char_int char_signed b * 4) mod 2 ^ 64 < 2) = False"
    by simp
  then show ?thesis
    by (simp add: deserialize_def deserialize_hash_count_def deserialize_stack_size_def
        deserialize_current_indent_def deserialize_at_line_start_def
        deserialize_indent_stack_def)
qed

lemma deserialize_three_bytes_signed:
  "deserialize True (scanner_with [0] 0 True) [0, 1, 0] = Inr (scanner_with [0] 0 False)"
  by code_simp

lemma deserialize_three_bytes_unsigned:
  "deserialize False (scanner_with [0] 0 True) [0, 1, 0] = Inr (scanner_with [0] 0 False)"
  by code_simp

text \<open>
  Claim C9 fails on the code. A buffer of the two header bytes leaves the cached indent,
  the line-start flag and the array as they were, but overwrites the depth, so that the
  stack read through the new depth can differ. A buffer of three bytes does more: the cached
  indent is skipped for want of bytes, but the offset stays at 2, and the line-start flag
  is read from byte 2, which belongs to the cached indent; the flag of the encoding
  (byte 6) is not in the buffer, and still the field changes from true to false.
\<close>

theorem deserialize_short_buffer_overwrites_flag:
  "deserialize char_signed scanner [a, b]
     = Inr (scanner\<lparr>hash_count := char_int char_signed a,
                      indent_stack_size := char_int char_signed b\<rparr>) \<and>
   deserialize char_signed (scanner_with [0] 0 True) [0, 1, 0]
     = Inr (scanner_with [0] 0 False)"
  using deserialize_two_bytes deserialize_three_bytes_signed deserialize_three_bytes_unsigned
  by (cases char_signed) simp_all

section \<open>The indentation block\<close>

lemma skip_whitespace_stop:
  "lookahead lexer \<noteq> CHR '' '' \<Longrightarrow> lookahead lexer \<noteq> CHR 0x09
     \<Longrightarrow> skip_whitespace lexer indent = (lexer, indent)"
  by (subst skip_whitespace.simps) simp

lemma skip_whitespace_mono:
  "skip_whitespace lexer indent = (lexer1, width) \<Longrightarrow> indent \<le> width"
proof (induction lexer indent rule: skip_whitespace.induct)
  case (1 lexer indent)
  show ?case
  proof (cases "lookahead lexer = CHR '' '' \<or> lookahead lexer = CHR 0x09")
    case True
    let ?next = "if lookahead lexer = CHR 0x09 then indent + 4 else indent + 1"
    have "skip_whitespace (advance lexer) ?next = (lexer1, width)"
      using "1.prems" True by (subst (asm) skip_whitespace.simps) simp
    then have "?next \<le> width"
      using "1.IH" True by blast
    then show ?thesis
      by (simp split: if_splits)
  next
    case False
    then have "skip_whitespace lexer indent = (lexer, indent)"
      by (simp add: skip_whitespace_stop)
    with "1.prems" show ?thesis by simp
  qed
qed

lemma content_line_start:
  assumes "skip_whitespace lexer 0 = (lexer1, width)" and "content_line lexer1 width"
  shows "lookahead lexer \<noteq> CHR 0x0A" and "lookahead lexer \<noteq> CHR 0x0D"
proof -
  have "lookahead lexer \<noteq> CHR 0x0A \<and> lookahead lexer \<noteq> CHR 0x0D"
  proof (rule ccontr)
    assume "\<not> ?thesis"
    then have nl: "lookahead lexer = CHR 0x0A \<or> lookahead lexer = CHR 0x0D"
      by blast
    then have "skip_whitespace lexer 0 = (lexer, 0)"
      by (intro skip_whitespace_stop) auto
    with assms(1) have "lexer1 = lexer" by simp
    with assms(2) nl show False
      by (auto simp: content_line_def)
  qed
  then show "lookahead lexer \<noteq> CHR 0x0A" and "lookahead lexer \<noteq> CHR 0x0D"
    by simp_all
qed

lemma pop_indents_bounds:
  "1 \<le> stack_size \<Longrightarrow>
     1 \<le> pop_indents stack stack_size indent \<and> pop_indents stack stack_size indent \<le> stack_size"
proof (induction stack stack_size indent rule: pop_indents.induct)
  case (1 stack stack_size indent)
  show ?case
  proof (cases "stack_size > 1 \<and> stack ! nat (stack_size - 1) > indent")
    case True
    then have "pop_indents stack stack_size indent = pop_indents stack (stack_size - 1) indent"
      by (subst pop_indents.simps) simp
    moreover have "1 \<le> pop_indents stack (stack_size - 1) indent \<and>
                   pop_indents stack (stack_size - 1) indent \<le> stack_size - 1"
      using "1.IH" True by simp
    ultimately show ?thesis by simp
  next
    case False
    then have "pop_indents stack stack_size indent = stack_size"
      by (subst pop_indents.simps) auto
    with "1.prems" show ?thesis by simp
  qed
qed

lemma sorted_wrt_less_le_last:
  fixes xs :: "int list"
  assumes "sorted_wrt (<) xs" and "x \<in> set xs"
  shows "x \<le> last xs"
  using assms
proof (induction xs)
  case Nil
  then show ?case by simp
next
  case (Cons a xs)
  then show ?case
    by (cases xs) (auto simp: less_imp_le)
qed

lemma pop_indents_filter:
  assumes "sorted_wrt (<) (take (nat stack_size) stack)"
    and "1 \<le> stack_size" and "nat stack_size \<le> length stack"
    and "stack ! 0 \<le> indent"
  shows "take (nat (pop_indents stack stack_size indent)) stack
           = filter (\<lambda>x. x \<le> indent) (take (nat stack_size) stack)"
  using assms
proof (induction stack stack_size indent rule: pop_indents.induct)
  case (1 stack stack_size indent)
  let ?top = "stack ! nat (stack_size - 1)"
  have split: "take (nat stack_size) stack = take (nat (stack_size - 1)) stack @ [?top]"
  proof -
    have "nat stack_size = Suc (nat (stack_size - 1))"
      using "1.prems"(2) by simp
    moreover have "nat (stack_size - 1) < length stack"
      using "1.prems"(2,3) by simp
    ultimately show ?thesis
      by (simp add: take_Suc_conv_app_nth)
  qed
  show ?case
  proof (cases "stack_size > 1 \<and> ?top > indent")
    case True
    then have eq: "pop_indents stack stack_size indent = pop_indents stack (stack_size - 1) indent"
      by (subst pop_indents.simps) simp
    have "sorted_wrt (<) (take (nat (stack_size - 1)) stack)"
      using "1.prems"(1) split by (simp add: sorted_wrt_append)
    then have "take (nat (pop_indents stack (stack_size - 1) indent)) stack
                 = filter (\<lambda>x. x \<le> indent) (take (nat (stack_size - 1)) stack)"
      using "1.IH" True "1.prems"(3,4) by simp
    then show ?thesis
      using eq split True by simp
  next
    case False
    then have eq: "pop_indents stack stack_size indent = stack_size"
      by (subst pop_indents.simps) auto
    have "\<forall>x \<in> set (take (nat stack_size) stack). x \<le> indent"
    proof (cases "stack_size > 1")
      case True
      with False have top: "?top \<le> indent" by simp
      have "last (take (nat stack_size) stack) = ?top"
        using split by simp
      then show ?thesis
        using sorted_wrt_less_le_last [OF "1.prems"(1)] top by fastforce
    next
      case False
      with "1.prems"(2) have "stack_size = 1" by simp
      then have "take (nat stack_size) stack = [stack ! 0]"
        using split by simp
      with "1.prems"(4) show ?thesis by simp
    qed
    then have "filter (\<lambda>x. x \<le> indent) (take (nat stack_size) stack) = take (nat stack_size) stack"
      by (simp add: filter_id_conv)
    with eq show ?thesis by simp
  qed
qed

lemma count_hashes_zero:
  "lookahead lexer \<noteq> CHR ''#'' \<Longrightarrow> count_hashes lexer n = (lexer, n)"
  by (subst count_hashes.simps) simp

lemma count_hashes_mono:
  "count_hashes lexer n = (lexer1, m) \<Longrightarrow> n \<le> m"
proof (induction lexer n rule: count_hashes.induct)
  case (1 lexer n)
  show ?case
  proof (cases "lookahead lexer = CHR ''#''")
    case True
    then have "count_hashes (advance lexer) (n + 1) = (lexer1, m)"
      using "1.prems" by (subst (asm) count_hashes.simps) simp
    then have "n + 1 \<le> m"
      using "1.IH" True by blast
    then show ?thesis by simp
  next
    case False
    with "1.prems" show ?thesis
      by (simp add: count_hashes_zero)
  qed
qed

lemma count_hashes_nonzero:
  "count_hashes lexer 0 = (lexer1, n) \<Longrightarrow> n \<noteq> 0 \<Longrightarrow> lookahead lexer = CHR ''#''"
  by (rule ccontr) (simp add: count_hashes_zero)

lemma scan_raw_string_frame:
  assumes "scan_raw_string scanner lexer valid_symbols = (accepted, scanner1, lexer1)"
  shows "indent_stack scanner1 = indent_stack scanner"
    and "indent_stack_size scanner1 = indent_stack_size scanner"
    and "current_indent scanner1 = current_indent scanner"
    and "hash_count scanner1 = hash_count scanner"
    and "accepted \<Longrightarrow> valid_symbols MULTI_LINE_RAW_STRING_LITERAL"
    and "accepted \<Longrightarrow> result_symbol lexer1 = Some MULTI_LINE_RAW_STRING_LITERAL"
    and "accepted \<Longrightarrow> lookahead lexer = CHR ''#''"
  using assms
  by (auto simp: scan_raw_string_def split: if_splits prod.splits
      dest: count_hashes_nonzero)

lemma stack_top_in_stack:
  assumes "stack_in_bounds scanner"
  shows "stack_top scanner \<in> set (stack_of scanner)"
    and "stack_top scanner = last (stack_of scanner)"
proof -
  have "nat (indent_stack_size scanner) = Suc (nat (indent_stack_size scanner - 1))"
    and "nat (indent_stack_size scanner - 1) < length (indent_stack scanner)"
    using assms by (auto simp: stack_in_bounds_def stack_capacity_def)
  then have "stack_of scanner
      = take (nat (indent_stack_size scanner - 1)) (indent_stack scanner) @ [stack_top scanner]"
    by (simp add: stack_of_def stack_top_def take_Suc_conv_app_nth)
  then show "stack_top scanner \<in> set (stack_of scanner)"
    and "stack_top scanner = last (stack_of scanner)"
    by simp_all
qed

text \<open>
  The scan call at a line start whose line has content, by the three cases of lines
  133-156.
\<close>

lemma scan_content_line:
  assumes "at_line_start scanner"
    and "valid_symbols INDENT \<or> valid_symbols DEDENT"
    and "skip_whitespace lexer 0 = (lexer1, width)"
    and "content_line lexer1 width"
    and "stack_in_bounds scanner"
  shows "scan scanner lexer valid_symbols =
    (if width > stack_top scanner \<and> valid_symbols INDENT
     then (if indent_stack_size scanner < stack_capacity
           then Inr (True,
                  scanner\<lparr>indent_stack :=
                            (indent_stack scanner)[nat (indent_stack_size scanner) := width],
                          indent_stack_size := indent_stack_size scanner + 1,
                          current_indent := width, at_line_start := False\<rparr>,
                  lexer1\<lparr>result_symbol := Some INDENT\<rparr>)
           else Inl OutOfBoundsWrite)
     else if width < stack_top scanner \<and> valid_symbols DEDENT
     then (let popped = scanner\<lparr>indent_stack_size :=
                          pop_indents (indent_stack scanner) (indent_stack_size scanner) width\<rparr>
           in if stack_top popped = width
              then Inr (True, popped\<lparr>current_indent := width, at_line_start := False\<rparr>,
                        lexer1\<lparr>result_symbol := Some DEDENT\<rparr>)
              else Inr (scan_raw_string
                         (popped\<lparr>current_indent := width, at_line_start := False\<rparr>)
                         lexer1 valid_symbols))
     else Inr (scan_raw_string (scanner\<lparr>current_indent := width, at_line_start := False\<rparr>)
                 lexer1 valid_symbols))"
proof -
  have nl: "lookahead lexer \<noteq> CHR 0x0A" "lookahead lexer \<noteq> CHR 0x0D"
    using content_line_start [OF assms(3,4)] by simp_all
  have cl: "(lookahead lexer1 = CHR ''/'' \<and> int (get_column lexer1) = width mod 2 ^ 32) = False"
    "lookahead lexer1 \<noteq> CHR 0x0A" "lookahead lexer1 \<noteq> CHR 0x0D" "lookahead lexer1 \<noteq> CHR 0x00"
    using assms(4) by (simp_all add: content_line_def)
  have b: "1 \<le> indent_stack_size scanner" "indent_stack_size scanner \<le> stack_capacity"
    using assms(5) by (simp_all add: stack_in_bounds_def)
  show ?thesis
    using nl b assms(1,2,3) cl
    by (auto simp: scan_def scan_indentation_def stack_top_def Let_def)
qed

section \<open>Misaligned dedent\<close>

lemma popped_top_in_stack:
  assumes "stack_in_bounds scanner"
  shows "stack_top (scanner\<lparr>indent_stack_size :=
            pop_indents (indent_stack scanner) (indent_stack_size scanner) width\<rparr>)
         \<in> set (stack_of scanner)"
proof -
  let ?p = "pop_indents (indent_stack scanner) (indent_stack_size scanner) width"
  have b: "1 \<le> indent_stack_size scanner" "indent_stack_size scanner \<le> 100"
    "length (indent_stack scanner) = 100"
    using assms by (simp_all add: stack_in_bounds_def stack_capacity_def)
  then have "1 \<le> ?p" and "?p \<le> indent_stack_size scanner"
    using pop_indents_bounds [of "indent_stack_size scanner" "indent_stack scanner" width]
    by simp_all
  then have "nat (?p - 1) < nat (indent_stack_size scanner)"
    and "nat (?p - 1) < length (indent_stack scanner)"
    using b by auto
  then have "indent_stack scanner ! nat (?p - 1)
               \<in> set (take (nat (indent_stack_size scanner)) (indent_stack scanner))"
    by (metis in_set_conv_nth length_take min_less_iff_conj nth_take)
  then show ?thesis
    by (simp add: stack_top_def stack_of_def)
qed

lemma scan_misaligned_dedent:
  assumes "stack_in_bounds scanner"
    and "at_line_start scanner"
    and "valid_symbols DEDENT"
    and "skip_whitespace lexer 0 = (lexer1, width)"
    and "content_line lexer1 width"
    and "width < stack_top scanner"
    and "width \<notin> set (stack_of scanner)"
  shows "scan scanner lexer valid_symbols =
           Inr (scan_raw_string
                  (scanner\<lparr>indent_stack_size :=
                             pop_indents (indent_stack scanner) (indent_stack_size scanner) width,
                           current_indent := width, at_line_start := False\<rparr>)
                  lexer1 valid_symbols)"
proof -
  have "stack_top (scanner\<lparr>indent_stack_size :=
            pop_indents (indent_stack scanner) (indent_stack_size scanner) width\<rparr>) \<noteq> width"
    using popped_top_in_stack [OF assms(1), of width] assms(7) by auto
  then show ?thesis
    using scan_content_line [OF assms(2) _ assms(4,5,1), of valid_symbols] assms(3,6)
    by (simp add: Let_def)
qed

text \<open>
  Claim C7, as stated, fails: with the stack \<open>[0, 4]\<close>, DEDENT and the raw-string token
  acceptable, a line of width 2 that starts with a raw string literal is a misaligned
  dedent, and the call does not decline: after the pop it falls through to the raw-string
  code and returns that token.
\<close>

theorem misaligned_dedent_with_raw_string:
  "scan (scanner_with [0, 4] 4 True)
        (lexer_on (''  '' @ raw_literal 1 quote_double ''a'')) all_valid
     = Inr (True, (scanner_with [0, 4] 2 False)\<lparr>indent_stack_size := 1\<rparr>,
            \<lparr>remaining = [], column = 7,
             result_symbol = Some MULTI_LINE_RAW_STRING_LITERAL\<rparr>)"
  by code_simp

lemma scan_raw_string_declines:
  assumes "\<not> valid_symbols MULTI_LINE_RAW_STRING_LITERAL \<or> lookahead lexer \<noteq> CHR ''#''"
    and "\<not> at_line_start scanner"
  shows "scan_raw_string scanner lexer valid_symbols = (False, scanner, lexer)"
proof (cases "valid_symbols MULTI_LINE_RAW_STRING_LITERAL")
  case True
  with assms(1) have "count_hashes lexer 0 = (lexer, 0)"
    by (simp add: count_hashes_zero)
  with True show ?thesis
    by (simp add: scan_raw_string_def)
next
  case False
  have "scanner\<lparr>at_line_start := False\<rparr> = scanner"
    using assms(2) by simp
  with False show ?thesis
    by (simp add: scan_raw_string_def)
qed

text \<open>
  Claim C7, amended: when a scan call at line start measures, on a line with content, a
  width strictly less than the stack top, DEDENT is acceptable and no stack entry equals
  the width, the call faults nothing and emits neither NEWLINE, INDENT nor DEDENT: its
  result is exactly the result of the raw-string recogniser (lines 158-208) on the text
  after the indentation, run with the popped stack. So the call produces no token, unless
  the raw-string token is acceptable, the text after the indentation starts with a marker
  and the recogniser accepts a raw string literal there, which is then the token; where
  the raw-string token is not acceptable or no marker follows the indentation, the call
  declines with the lexer after the indentation.
\<close>

theorem misaligned_dedent_declines:
  assumes "stack_in_bounds scanner"
    and "at_line_start scanner"
    and "valid_symbols DEDENT"
    and "skip_whitespace lexer 0 = (lexer1, width)"
    and "content_line lexer1 width"
    and "width < stack_top scanner"
    and "width \<notin> set (stack_of scanner)"
  shows "scan scanner lexer valid_symbols =
           Inr (scan_raw_string
                  (scanner\<lparr>indent_stack_size :=
                             pop_indents (indent_stack scanner) (indent_stack_size scanner) width,
                           current_indent := width, at_line_start := False\<rparr>)
                  lexer1 valid_symbols) \<and>
         (\<exists>accepted scanner' lexer'.
            scan scanner lexer valid_symbols = Inr (accepted, scanner', lexer') \<and>
            (accepted \<longrightarrow>
               valid_symbols MULTI_LINE_RAW_STRING_LITERAL \<and>
               lookahead lexer1 = CHR ''#'' \<and>
               result_symbol lexer' = Some MULTI_LINE_RAW_STRING_LITERAL)) \<and>
         (\<not> valid_symbols MULTI_LINE_RAW_STRING_LITERAL \<or> lookahead lexer1 \<noteq> CHR ''#'' \<longrightarrow>
            scan scanner lexer valid_symbols =
              Inr (False,
                   scanner\<lparr>indent_stack_size :=
                             pop_indents (indent_stack scanner) (indent_stack_size scanner) width,
                           current_indent := width, at_line_start := False\<rparr>,
                   lexer1))"
proof -
  let ?popped = "scanner\<lparr>indent_stack_size :=
                    pop_indents (indent_stack scanner) (indent_stack_size scanner) width,
                  current_indent := width, at_line_start := False\<rparr>"
  obtain accepted scanner' lexer'
    where raw: "scan_raw_string ?popped lexer1 valid_symbols = (accepted, scanner', lexer')"
    by (metis prod_cases3)
  have eq: "scan scanner lexer valid_symbols
              = Inr (scan_raw_string ?popped lexer1 valid_symbols)"
    using assms by (rule scan_misaligned_dedent)
  then have "scan scanner lexer valid_symbols = Inr (accepted, scanner', lexer')"
    using raw by simp
  then have token: "\<exists>accepted scanner' lexer'.
            scan scanner lexer valid_symbols = Inr (accepted, scanner', lexer') \<and>
            (accepted \<longrightarrow>
               valid_symbols MULTI_LINE_RAW_STRING_LITERAL \<and>
               lookahead lexer1 = CHR ''#'' \<and>
               result_symbol lexer' = Some MULTI_LINE_RAW_STRING_LITERAL)"
    using scan_raw_string_frame(5,6,7) [OF raw] by blast
  have decline: "scan scanner lexer valid_symbols = Inr (False, ?popped, lexer1)"
    if "\<not> valid_symbols MULTI_LINE_RAW_STRING_LITERAL \<or> lookahead lexer1 \<noteq> CHR ''#''"
  proof -
    have "scan_raw_string ?popped lexer1 valid_symbols = (False, ?popped, lexer1)"
      using that by (rule scan_raw_string_declines) simp
    with eq show ?thesis by simp
  qed
  show ?thesis
    using eq token decline by blast
qed

text \<open>
  The stack \<open>[0, 4]\<close> and the line \<open>"  x"\<close>: the call declines, with the stack popped to
  \<open>[0]\<close> and the lexer after the two spaces.
\<close>

theorem misaligned_dedent_declines_witness:
  "scan (scanner_with [0, 4] 4 True) (lexer_on ''  x'') all_valid
     = Inr (False, (scanner_with [0, 4] 2 False)\<lparr>indent_stack_size := 1\<rparr>,
            lexer_at ''  x'' 2)"
proof -
  have b: "stack_in_bounds (scanner_with [0, 4] 4 True)"
    by code_simp
  have l: "at_line_start (scanner_with [0, 4] 4 True)"
    by (simp add: scanner_with_def)
  have v: "all_valid DEDENT"
    by (simp add: all_valid_def)
  have w: "skip_whitespace (lexer_on ''  x'') 0 = (lexer_at ''  x'' 2, 2)"
    by code_simp
  have c: "content_line (lexer_at ''  x'' 2) 2"
    by code_simp
  have t: "2 < stack_top (scanner_with [0, 4] 4 True)"
    by code_simp
  have n: "2 \<notin> set (stack_of (scanner_with [0, 4] 4 True))"
    by (simp add: stack_of_scanner_with)
  have h: "lookahead (lexer_at ''  x'' 2) \<noteq> CHR ''#''"
    by code_simp
  have p: "(scanner_with [0, 4] 4 True)\<lparr>indent_stack_size :=
               pop_indents (indent_stack (scanner_with [0, 4] 4 True))
                 (indent_stack_size (scanner_with [0, 4] 4 True)) 2,
             current_indent := 2, at_line_start := False\<rparr>
           = (scanner_with [0, 4] 2 False)\<lparr>indent_stack_size := 1\<rparr>"
    by code_simp
  have "scan (scanner_with [0, 4] 4 True) (lexer_on ''  x'') all_valid
     = Inr (False,
            (scanner_with [0, 4] 4 True)\<lparr>indent_stack_size :=
               pop_indents (indent_stack (scanner_with [0, 4] 4 True))
                 (indent_stack_size (scanner_with [0, 4] 4 True)) 2,
             current_indent := 2, at_line_start := False\<rparr>,
            lexer_at ''  x'' 2)"
    using misaligned_dedent_declines [where scanner = "scanner_with [0, 4] 4 True"
        and valid_symbols = all_valid and lexer = "lexer_on ''  x''"
        and ?lexer1.0 = "lexer_at ''  x'' 2" and width = 2] b l v w c t n h
    by blast
  then show ?thesis
    by (simp only: p)
qed

lemma stack_inv_in_bounds: "stack_inv scanner \<Longrightarrow> stack_in_bounds scanner"
  by (simp add: stack_inv_def stack_in_bounds_def)

text \<open>
  Claim C10, as stated, fails in one point: the call that pops for a misaligned dedent need
  not return a decline. With the stack \<open>[0, 2, 6]\<close>, DEDENT and the raw-string token
  acceptable, a line of width 4 that starts with a raw string literal pops the stack to
  \<open>[0, 2]\<close> and returns the raw-string token.
\<close>

theorem misaligned_dedent_pops_with_raw_string:
  "scan (scanner_with [0, 2, 6] 6 True)
        (lexer_on (''    '' @ raw_literal 1 quote_single ''b'')) all_valid
     = Inr (True, (scanner_with [0, 2, 6] 4 False)\<lparr>indent_stack_size := 2\<rparr>,
            \<lparr>remaining = [], column = 9,
             result_symbol = Some MULTI_LINE_RAW_STRING_LITERAL\<rparr>)"
  by code_simp

text \<open>
  Claim C10, amended: when a scan call at line start, on a state that satisfies the stack
  invariant, measures on a line with content a width \<open>w\<close> strictly less than the stack top,
  DEDENT is acceptable and no stack entry equals \<open>w\<close>, the call emits neither INDENT nor
  DEDENT: its result is exactly the result of the raw-string recogniser (lines 158-208) on
  the text after the indentation, so it declines wherever the raw-string token is not
  acceptable or no marker follows the indentation, and returns a token only if the
  recogniser accepts a raw string literal there. In every case it has already popped the
  stack: afterwards the stack consists of exactly the prior entries that are at most \<open>w\<close>,
  the bottom 0 retained, and differs from the stack before the call.
\<close>

theorem misaligned_dedent_pops:
  assumes "stack_inv scanner"
    and "at_line_start scanner"
    and "valid_symbols DEDENT"
    and "skip_whitespace lexer 0 = (lexer1, width)"
    and "content_line lexer1 width"
    and "width < stack_top scanner"
    and "width \<notin> set (stack_of scanner)"
  shows "\<exists>accepted scanner' lexer'.
           scan scanner lexer valid_symbols = Inr (accepted, scanner', lexer') \<and>
           scan_raw_string
             (scanner\<lparr>indent_stack_size :=
                        pop_indents (indent_stack scanner) (indent_stack_size scanner) width,
                      current_indent := width, at_line_start := False\<rparr>)
             lexer1 valid_symbols = (accepted, scanner', lexer') \<and>
           stack_of scanner' = filter (\<lambda>x. x \<le> width) (stack_of scanner) \<and>
           stack_of scanner' \<noteq> stack_of scanner \<and>
           hd (stack_of scanner') = 0 \<and>
           (accepted \<longrightarrow>
              valid_symbols MULTI_LINE_RAW_STRING_LITERAL \<and>
              lookahead lexer1 = CHR ''#'' \<and>
              result_symbol lexer' = Some MULTI_LINE_RAW_STRING_LITERAL) \<and>
           (\<not> valid_symbols MULTI_LINE_RAW_STRING_LITERAL \<or> lookahead lexer1 \<noteq> CHR ''#'' \<longrightarrow>
              \<not> accepted \<and> lexer' = lexer1)"
proof -
  let ?p = "pop_indents (indent_stack scanner) (indent_stack_size scanner) width"
  let ?popped = "scanner\<lparr>indent_stack_size := ?p, current_indent := width,
                         at_line_start := False\<rparr>"
  have bounds: "stack_in_bounds scanner"
    using assms(1) by (rule stack_inv_in_bounds)
  have inv: "length (indent_stack scanner) = 100" "1 \<le> indent_stack_size scanner"
    "indent_stack_size scanner \<le> 100" "indent_stack scanner ! 0 = 0"
    "sorted_wrt (<) (take (nat (indent_stack_size scanner)) (indent_stack scanner))"
    using assms(1) by (simp_all add: stack_inv_def stack_capacity_def stack_of_def)
  obtain accepted scanner' lexer'
    where raw: "scan_raw_string ?popped lexer1 valid_symbols = (accepted, scanner', lexer')"
    by (metis prod_cases3)
  have "scan scanner lexer valid_symbols = Inr (scan_raw_string ?popped lexer1 valid_symbols)"
    using bounds assms(2-7) by (rule scan_misaligned_dedent)
  then have sc: "scan scanner lexer valid_symbols = Inr (accepted, scanner', lexer')"
    using raw by simp
  have "0 \<le> width"
    using assms(4) by (rule skip_whitespace_mono)
  then have "take (nat ?p) (indent_stack scanner)
               = filter (\<lambda>x. x \<le> width) (take (nat (indent_stack_size scanner)) (indent_stack scanner))"
    using inv by (intro pop_indents_filter) simp_all
  moreover have "indent_stack scanner' = indent_stack scanner"
    and "indent_stack_size scanner' = ?p"
    using scan_raw_string_frame(1,2) [OF raw] by simp_all
  ultimately have popped: "stack_of scanner' = filter (\<lambda>x. x \<le> width) (stack_of scanner)"
    by (simp add: stack_of_def)
  have "stack_top scanner \<in> set (stack_of scanner)"
    using bounds by (rule stack_top_in_stack)
  moreover have "stack_top scanner \<notin> set (filter (\<lambda>x. x \<le> width) (stack_of scanner))"
    using assms(6) by simp
  ultimately have changed: "stack_of scanner' \<noteq> stack_of scanner"
    using popped by metis
  have "1 \<le> ?p"
    using pop_indents_bounds [of "indent_stack_size scanner" "indent_stack scanner" width] inv(2)
    by simp
  then have "hd (take (nat ?p) (indent_stack scanner)) = indent_stack scanner ! 0"
    using inv(1) by (cases "nat ?p"; cases "indent_stack scanner") auto
  then have bottom: "hd (stack_of scanner') = 0"
    using inv(4) \<open>indent_stack scanner' = indent_stack scanner\<close>
      \<open>indent_stack_size scanner' = ?p\<close>
    by (simp add: stack_of_def)
  have decline: "\<not> accepted \<and> lexer' = lexer1"
    if "\<not> valid_symbols MULTI_LINE_RAW_STRING_LITERAL \<or> lookahead lexer1 \<noteq> CHR ''#''"
  proof -
    have "scan_raw_string ?popped lexer1 valid_symbols = (False, ?popped, lexer1)"
      using that by (rule scan_raw_string_declines) simp
    with raw show ?thesis by simp
  qed
  show ?thesis
    using sc raw popped changed bottom decline scan_raw_string_frame(5,6,7) [OF raw] by blast
qed

text \<open>
  The stack \<open>[0, 2, 6]\<close> and the line \<open>"    y"\<close>: the call declines, with the lexer after
  the four spaces, and leaves \<open>[0, 2]\<close>.
\<close>

theorem misaligned_dedent_pops_witness:
  "\<exists>scanner'.
     scan (scanner_with [0, 2, 6] 6 True) (lexer_on ''    y'') all_valid
       = Inr (False, scanner', lexer_at ''    y'' 4) \<and>
     stack_of scanner' = [0, 2]"
proof -
  have i: "stack_inv (scanner_with [0, 2, 6] 6 True)"
    by code_simp
  have l: "at_line_start (scanner_with [0, 2, 6] 6 True)"
    by (simp add: scanner_with_def)
  have v: "all_valid DEDENT"
    by (simp add: all_valid_def)
  have w: "skip_whitespace (lexer_on ''    y'') 0 = (lexer_at ''    y'' 4, 4)"
    by code_simp
  have c: "content_line (lexer_at ''    y'' 4) 4"
    by code_simp
  have t: "4 < stack_top (scanner_with [0, 2, 6] 6 True)"
    by code_simp
  have n: "4 \<notin> set (stack_of (scanner_with [0, 2, 6] 6 True))"
    by (simp add: stack_of_scanner_with)
  have h: "lookahead (lexer_at ''    y'' 4) \<noteq> CHR ''#''"
    by code_simp
  have f: "filter (\<lambda>x. x \<le> 4) (stack_of (scanner_with [0, 2, 6] 6 True)) = [0, 2]"
    by (simp add: stack_of_scanner_with)
  show ?thesis
    using misaligned_dedent_pops [where scanner = "scanner_with [0, 2, 6] 6 True"
        and valid_symbols = all_valid and lexer = "lexer_on ''    y''"
        and ?lexer1.0 = "lexer_at ''    y'' 4" and width = 4] i l v w c t n h f
    by auto
qed

section \<open>Lines of the width of the stack top\<close>

lemma result_symbol_advance: "result_symbol (advance lexer) = result_symbol lexer"
  by (simp add: advance_def split: list.splits)

text \<open>A scan call whose line has the width of the stack top.\<close>

lemma scan_equal_width:
  assumes "stack_in_bounds scanner"
    and "equal_width_call (stack_top scanner) (lexer, valid_symbols)"
  shows "\<exists>accepted scanner' lexer'.
           scan scanner lexer valid_symbols = Inr (accepted, scanner', lexer') \<and>
           indent_stack scanner' = indent_stack scanner \<and>
           indent_stack_size scanner' = indent_stack_size scanner \<and>
           (\<not> accepted \<or>
            (valid_symbols NEWLINE \<and> result_symbol lexer' = Some NEWLINE) \<or>
            (valid_symbols MULTI_LINE_RAW_STRING_LITERAL \<and>
             result_symbol lexer' = Some MULTI_LINE_RAW_STRING_LITERAL))"
proof -
  obtain lexer1 width where sw: "skip_whitespace lexer 0 = (lexer1, width)"
    by (metis surj_pair)
  have raw: "\<exists>accepted scanner' lexer'.
           scan_raw_string s l valid_symbols = (accepted, scanner', lexer') \<and>
           indent_stack scanner' = indent_stack s \<and>
           indent_stack_size scanner' = indent_stack_size s \<and>
           (\<not> accepted \<or>
            (valid_symbols MULTI_LINE_RAW_STRING_LITERAL \<and>
             result_symbol lexer' = Some MULTI_LINE_RAW_STRING_LITERAL))" for s l
  proof -
    obtain accepted scanner' lexer'
      where r: "scan_raw_string s l valid_symbols = (accepted, scanner', lexer')"
      by (metis prod_cases3)
    show ?thesis
      using r scan_raw_string_frame(1,2,5,6) [OF r] by blast
  qed
  show ?thesis
  proof (cases "valid_symbols NEWLINE \<and> (lookahead lexer = CHR 0x0A \<or> lookahead lexer = CHR 0x0D)")
    case True
    then show ?thesis
      by (auto simp: scan_def scan_newline_def Let_def result_symbol_advance)
  next
    case nonl: False
    then have width: "width = stack_top scanner"
      using assms(2) sw by (auto simp: equal_width_call_def)
    show ?thesis
    proof (cases "at_line_start scanner \<and> (valid_symbols INDENT \<or> valid_symbols DEDENT)")
      case False
      then have "scan scanner lexer valid_symbols = Inr (scan_raw_string scanner lexer valid_symbols)"
        using nonl by (auto simp: scan_def)
      then show ?thesis
        using raw [of scanner lexer] by auto
    next
      case True
      show ?thesis
      proof (cases "content_line lexer1 width")
        case True
        have "scan scanner lexer valid_symbols =
                Inr (scan_raw_string (scanner\<lparr>current_indent := width, at_line_start := False\<rparr>)
                       lexer1 valid_symbols)"
          using scan_content_line [of scanner valid_symbols lexer lexer1 width]
            \<open>at_line_start scanner \<and> (valid_symbols INDENT \<or> valid_symbols DEDENT)\<close>
            sw True assms(1) width
          by simp
        then show ?thesis
          using raw [of "scanner\<lparr>current_indent := width, at_line_start := False\<rparr>" lexer1]
          by auto
      next
        case False
        then have "scan scanner lexer valid_symbols
                     = Inr (False, scanner\<lparr>at_line_start := False\<rparr>, lexer1)"
          using nonl \<open>at_line_start scanner \<and> (valid_symbols INDENT \<or> valid_symbols DEDENT)\<close> sw
          by (auto simp: scan_def scan_indentation_def content_line_def)
        then show ?thesis by auto
      qed
    qed
  qed
qed

text \<open>
  Claim C8, as stated, fails: on the stack \<open>[0, 2]\<close>, a line of width 2 that starts with a
  raw string literal does not make the call decline when the raw-string token is
  acceptable; the call falls through to the raw-string code and returns that token.
\<close>

theorem equal_width_line_with_raw_string:
  "snd (skip_whitespace (lexer_on (''  '' @ raw_literal 1 quote_double ''a'')) 0)
     = stack_top (scanner_with [0, 2] 2 True) \<and>
   scan (scanner_with [0, 2] 2 True)
        (lexer_on (''  '' @ raw_literal 1 quote_double ''a'')) all_valid
     = Inr (True, scanner_with [0, 2] 2 False,
            \<lparr>remaining = [], column = 7,
             result_symbol = Some MULTI_LINE_RAW_STRING_LITERAL\<rparr>)"
  by code_simp

text \<open>
  Claim C8, amended: for every state whose depth is within the array and every line whose
  measured indentation width equals the current stack top, the scan call emits neither
  INDENT nor DEDENT and leaves the stack unchanged; it declines unless NEWLINE or the
  raw-string token is acceptable and is the token it returns. This holds under arbitrarily
  repeated calls: no sequence of such calls, with or without calls on the line terminators
  between the lines, ever changes the array or the depth.
\<close>

theorem equal_width_calls_keep_stack:
  assumes "stack_in_bounds scanner"
    and "\<forall>call \<in> set calls. equal_width_call (stack_top scanner) call"
  shows "\<exists>out scanner'.
           scan_calls scanner calls = Inr (out, scanner') \<and>
           indent_stack scanner' = indent_stack scanner \<and>
           indent_stack_size scanner' = indent_stack_size scanner \<and>
           list_all2 (\<lambda>call r.
               snd r = stack_of scanner \<and>
               (fst r = None \<or>
                (fst r = Some NEWLINE \<and> snd call NEWLINE) \<or>
                (fst r = Some MULTI_LINE_RAW_STRING_LITERAL \<and>
                 snd call MULTI_LINE_RAW_STRING_LITERAL)))
             calls out"
  using assms
proof (induction calls arbitrary: scanner)
  case Nil
  then show ?case by simp
next
  case (Cons call calls)
  obtain lexer valid_symbols where call: "call = (lexer, valid_symbols)"
    by (cases call)
  have "equal_width_call (stack_top scanner) (lexer, valid_symbols)"
    using Cons.prems(2) call by simp
  then obtain accepted scanner1 lexer1
    where sc: "scan scanner lexer valid_symbols = Inr (accepted, scanner1, lexer1)"
      and st: "indent_stack scanner1 = indent_stack scanner"
      and sz: "indent_stack_size scanner1 = indent_stack_size scanner"
      and tok: "\<not> accepted \<or>
            (valid_symbols NEWLINE \<and> result_symbol lexer1 = Some NEWLINE) \<or>
            (valid_symbols MULTI_LINE_RAW_STRING_LITERAL \<and>
             result_symbol lexer1 = Some MULTI_LINE_RAW_STRING_LITERAL)"
    using scan_equal_width [OF Cons.prems(1), of lexer valid_symbols] by blast
  have b1: "stack_in_bounds scanner1"
    using Cons.prems(1) st sz by (simp add: stack_in_bounds_def)
  have top1: "stack_top scanner1 = stack_top scanner"
    using st sz by (simp add: stack_top_def)
  have of1: "stack_of scanner1 = stack_of scanner"
    using st sz by (simp add: stack_of_def)
  have "\<forall>call \<in> set calls. equal_width_call (stack_top scanner1) call"
    using Cons.prems(2) top1 by simp
  then obtain out scanner2
    where rest: "scan_calls scanner1 calls = Inr (out, scanner2)"
      and st2: "indent_stack scanner2 = indent_stack scanner1"
      and sz2: "indent_stack_size scanner2 = indent_stack_size scanner1"
      and all2: "list_all2 (\<lambda>call r.
               snd r = stack_of scanner1 \<and>
               (fst r = None \<or>
                (fst r = Some NEWLINE \<and> snd call NEWLINE) \<or>
                (fst r = Some MULTI_LINE_RAW_STRING_LITERAL \<and>
                 snd call MULTI_LINE_RAW_STRING_LITERAL)))
             calls out"
    using Cons.IH [OF b1] by blast
  let ?token = "if accepted then result_symbol lexer1 else None"
  have run: "scan_calls scanner (call # calls) = Inr ((?token, stack_of scanner1) # out, scanner2)"
    using call sc rest by (simp add: scan_token_def)
  have head: "?token = None \<or>
                (?token = Some NEWLINE \<and> snd call NEWLINE) \<or>
                (?token = Some MULTI_LINE_RAW_STRING_LITERAL \<and>
                 snd call MULTI_LINE_RAW_STRING_LITERAL)"
    using tok call by auto
  show ?case
    using run head all2 st st2 sz sz2 of1 by simp
qed

text \<open>
  Three lines of width 2 on the stack \<open>[0, 2]\<close>, with the line boundaries between them:
  every line is measured, every call on a line declines, and the stack stays.
\<close>

theorem equal_width_calls_keep_stack_witness:
  "scan_calls (scanner_with [0, 2] 2 True)
     [(lexer_on ''  x'', all_valid), (lexer_on (CHR 0x0A # ''  y''), all_valid),
      (lexer_on ''  y'', all_valid), (lexer_on (CHR 0x0A # ''  z''), all_valid),
      (lexer_on ''  z'', all_valid)]
   = Inr ([(None, [0, 2]), (Some NEWLINE, [0, 2]), (None, [0, 2]), (Some NEWLINE, [0, 2]),
           (None, [0, 2])], scanner_with [0, 2] 2 False) \<and>
   (\<exists>out scanner'.
      scan_calls (scanner_with [0, 2] 2 True)
        [(lexer_on ''  x'', all_valid), (lexer_on (CHR 0x0A # ''  y''), all_valid),
         (lexer_on ''  y'', all_valid), (lexer_on (CHR 0x0A # ''  z''), all_valid),
         (lexer_on ''  z'', all_valid)] = Inr (out, scanner') \<and>
      indent_stack scanner' = indent_stack (scanner_with [0, 2] 2 True) \<and>
      indent_stack_size scanner' = indent_stack_size (scanner_with [0, 2] 2 True))"
proof -
  let ?calls = "[(lexer_on ''  x'', all_valid), (lexer_on (CHR 0x0A # ''  y''), all_valid),
      (lexer_on ''  y'', all_valid), (lexer_on (CHR 0x0A # ''  z''), all_valid),
      (lexer_on ''  z'', all_valid)]"
  have b: "stack_in_bounds (scanner_with [0, 2] 2 True)"
    by code_simp
  have w: "\<forall>call \<in> set ?calls. equal_width_call (stack_top (scanner_with [0, 2] 2 True)) call"
    by code_simp
  have c1: "scan_token (scanner_with [0, 2] 2 True) (lexer_on ''  x'') all_valid
              = Inr (None, scanner_with [0, 2] 2 False)"
    by code_simp
  have c2: "scan_token (scanner_with [0, 2] 2 False) (lexer_on (CHR 0x0A # ''  y'')) all_valid
              = Inr (Some NEWLINE, scanner_with [0, 2] 2 True)"
    by code_simp
  have c3: "scan_token (scanner_with [0, 2] 2 True) (lexer_on ''  y'') all_valid
              = Inr (None, scanner_with [0, 2] 2 False)"
    by code_simp
  have c4: "scan_token (scanner_with [0, 2] 2 False) (lexer_on (CHR 0x0A # ''  z'')) all_valid
              = Inr (Some NEWLINE, scanner_with [0, 2] 2 True)"
    by code_simp
  have c5: "scan_token (scanner_with [0, 2] 2 True) (lexer_on ''  z'') all_valid
              = Inr (None, scanner_with [0, 2] 2 False)"
    by code_simp
  have e: "scan_calls (scanner_with [0, 2] 2 True) ?calls
   = Inr ([(None, [0, 2]), (Some NEWLINE, [0, 2]), (None, [0, 2]), (Some NEWLINE, [0, 2]),
           (None, [0, 2])], scanner_with [0, 2] 2 False)"
    by (simp add: c1 c2 c3 c4 c5 stack_of_scanner_with)
  obtain out scanner' where "scan_calls (scanner_with [0, 2] 2 True) ?calls = Inr (out, scanner')"
    and "indent_stack scanner' = indent_stack (scanner_with [0, 2] 2 True)"
    and "indent_stack_size scanner' = indent_stack_size (scanner_with [0, 2] 2 True)"
    using equal_width_calls_keep_stack [OF b w] by blast
  with e show ?thesis
    by blast
qed

section \<open>The invariant and the capacity of the stack\<close>

lemma stack_inv_frame:
  assumes "stack_inv scanner"
    and "indent_stack scanner' = indent_stack scanner"
    and "indent_stack_size scanner' = indent_stack_size scanner"
  shows "stack_inv scanner'"
  using assms by (simp add: stack_inv_def stack_of_def)

lemma stack_inv_push:
  assumes "stack_inv scanner"
    and "indent_stack_size scanner < stack_capacity"
    and "stack_top scanner < width"
  shows "stack_inv (scanner\<lparr>indent_stack :=
                              (indent_stack scanner)[nat (indent_stack_size scanner) := width],
                            indent_stack_size := indent_stack_size scanner + 1,
                            current_indent := width, at_line_start := False\<rparr>)"
proof -
  let ?n = "nat (indent_stack_size scanner)"
  let ?stack = "indent_stack scanner"
  have inv: "length ?stack = 100" "1 \<le> indent_stack_size scanner"
    "indent_stack_size scanner < 100" "?stack ! 0 = 0"
    "sorted_wrt (<) (take ?n ?stack)"
    using assms(1,2) by (simp_all add: stack_inv_def stack_capacity_def stack_of_def)
  have n: "?n < length ?stack" "0 < ?n"
    using inv by simp_all
  have "nat (indent_stack_size scanner + 1) = Suc ?n"
    using inv(2) by simp
  then have push: "take (nat (indent_stack_size scanner + 1)) (?stack[?n := width])
                     = take ?n ?stack @ [width]"
    using n by (simp add: take_Suc_conv_app_nth)
  have "\<forall>x \<in> set (take ?n ?stack). x < width"
  proof
    fix x
    assume x: "x \<in> set (take ?n ?stack)"
    have "stack_in_bounds scanner"
      using assms(1) by (rule stack_inv_in_bounds)
    then have "stack_top scanner = last (stack_of scanner)"
      by (rule stack_top_in_stack)
    moreover have "x \<le> last (take ?n ?stack)"
      using inv(5) x by (rule sorted_wrt_less_le_last)
    ultimately show "x < width"
      using assms(3) by (simp add: stack_of_def)
  qed
  then have "sorted_wrt (<) (take ?n ?stack @ [width])"
    using inv(5) by (simp add: sorted_wrt_append)
  moreover have "(?stack[?n := width]) ! 0 = 0"
    using inv(4) n by simp
  ultimately show ?thesis
    using inv push by (simp add: stack_inv_def stack_of_def stack_capacity_def)
qed

lemma stack_inv_pop:
  assumes "stack_inv scanner"
  shows "stack_inv (scanner\<lparr>indent_stack_size :=
            pop_indents (indent_stack scanner) (indent_stack_size scanner) width\<rparr>)"
proof -
  let ?p = "pop_indents (indent_stack scanner) (indent_stack_size scanner) width"
  have inv: "length (indent_stack scanner) = 100" "1 \<le> indent_stack_size scanner"
    "indent_stack_size scanner \<le> 100" "indent_stack scanner ! 0 = 0"
    "sorted_wrt (<) (take (nat (indent_stack_size scanner)) (indent_stack scanner))"
    using assms by (simp_all add: stack_inv_def stack_capacity_def stack_of_def)
  have p: "1 \<le> ?p" "?p \<le> indent_stack_size scanner"
    using pop_indents_bounds [of "indent_stack_size scanner" "indent_stack scanner" width] inv(2)
    by simp_all
  have "take (nat ?p) (indent_stack scanner)
          = take (nat ?p) (take (nat (indent_stack_size scanner)) (indent_stack scanner))"
    using p by (simp add: min_def)
  then have "sorted_wrt (<) (take (nat ?p) (indent_stack scanner))"
    using inv(5) by (metis sorted_wrt_take)
  then show ?thesis
    using inv p by (simp add: stack_inv_def stack_of_def stack_capacity_def)
qed

text \<open>
  Every scan call that returns (its pushes stay inside the array) preserves the invariant
  of the stack: the depth stays within 1 and 100, the bottom entry stays 0 and the entries
  stay strictly increasing.
\<close>

theorem scan_preserves_stack_inv:
  assumes "stack_inv scanner"
    and "scan scanner lexer valid_symbols = Inr (accepted, scanner', lexer')"
  shows "stack_inv scanner'"
proof -
  have bounds: "stack_in_bounds scanner"
    using assms(1) by (rule stack_inv_in_bounds)
  have raw: "stack_inv s' " if "stack_inv s" and "scan_raw_string s l valid_symbols = (a, s', l')"
    for s l a s' l'
    using that(1) scan_raw_string_frame(1,2) [OF that(2)] by (rule stack_inv_frame)
  obtain lexer1 width where sw: "skip_whitespace lexer 0 = (lexer1, width)"
    by (metis surj_pair)
  show ?thesis
  proof (cases "valid_symbols NEWLINE \<and> (lookahead lexer = CHR 0x0A \<or> lookahead lexer = CHR 0x0D)")
    case True
    then have "scanner' = scanner\<lparr>at_line_start := True\<rparr>"
      using assms(2) by (auto simp: scan_def scan_newline_def Let_def)
    then show ?thesis
      using assms(1) by (simp add: stack_inv_frame)
  next
    case nonl: False
    show ?thesis
    proof (cases "at_line_start scanner \<and> (valid_symbols INDENT \<or> valid_symbols DEDENT)")
      case False
      then have "scan_raw_string scanner lexer valid_symbols = (accepted, scanner', lexer')"
        using nonl assms(2) by (auto simp: scan_def)
      with assms(1) show ?thesis by (rule raw)
    next
      case start: True
      show ?thesis
      proof (cases "content_line lexer1 width")
        case False
        then have "scan scanner lexer valid_symbols
                     = Inr (False, scanner\<lparr>at_line_start := False\<rparr>, lexer1)"
          using nonl start sw
          by (auto simp: scan_def scan_indentation_def content_line_def)
        then have "scanner' = scanner\<lparr>at_line_start := False\<rparr>"
          using assms(2) by simp
        then show ?thesis
          using assms(1) by (simp add: stack_inv_frame)
      next
        case True
        note eq = scan_content_line [of scanner valid_symbols lexer lexer1 width]
        let ?popped = "scanner\<lparr>indent_stack_size :=
              pop_indents (indent_stack scanner) (indent_stack_size scanner) width\<rparr>"
        have popped: "stack_inv (?popped\<lparr>current_indent := width, at_line_start := False\<rparr>)"
          using stack_inv_pop [OF assms(1), of width] by (simp add: stack_inv_frame)
        have same: "stack_inv (scanner\<lparr>current_indent := width, at_line_start := False\<rparr>)"
          using assms(1) by (simp add: stack_inv_frame)
        consider (push) "width > stack_top scanner \<and> valid_symbols INDENT"
          | (pop) "\<not> (width > stack_top scanner \<and> valid_symbols INDENT)"
              "width < stack_top scanner \<and> valid_symbols DEDENT"
          | (keep) "\<not> (width > stack_top scanner \<and> valid_symbols INDENT)"
              "\<not> (width < stack_top scanner \<and> valid_symbols DEDENT)"
          by blast
        then show ?thesis
        proof cases
          case push
          then have "indent_stack_size scanner < stack_capacity"
            and "scanner' = scanner\<lparr>indent_stack :=
                              (indent_stack scanner)[nat (indent_stack_size scanner) := width],
                            indent_stack_size := indent_stack_size scanner + 1,
                            current_indent := width, at_line_start := False\<rparr>"
            using eq start sw True bounds assms(2) by (auto split: if_splits)
          then show ?thesis
            using stack_inv_push [OF assms(1)] push by simp
        next
          case pop
          then have "(stack_top ?popped = width \<and>
                      scanner' = ?popped\<lparr>current_indent := width, at_line_start := False\<rparr>) \<or>
                     scan_raw_string (?popped\<lparr>current_indent := width, at_line_start := False\<rparr>)
                        lexer1 valid_symbols = (accepted, scanner', lexer')"
            using eq start sw True bounds assms(2) by (auto simp: Let_def split: if_splits)
          then show ?thesis
            using popped raw by blast
        next
          case keep
          then have "scan_raw_string (scanner\<lparr>current_indent := width, at_line_start := False\<rparr>)
                        lexer1 valid_symbols = (accepted, scanner', lexer')"
            using eq start sw True bounds assms(2) by (auto simp: Let_def split: if_splits)
          with same show ?thesis by (rule raw)
        qed
      qed
    qed
  qed
qed

text \<open>The push of the line \<open>"    d"\<close> on the stack \<open>[0, 2]\<close>.\<close>

theorem scan_preserves_stack_inv_witness:
  "scan (scanner_with [0, 2] 2 True) (lexer_on ''    d'') all_valid
     = Inr (True, scanner_with [0, 2, 4] 4 False,
            \<lparr>remaining = ''d'', column = 4, result_symbol = Some INDENT\<rparr>) \<and>
   stack_inv (scanner_with [0, 2, 4] 4 False)"
proof -
  have i: "stack_inv (scanner_with [0, 2] 2 True)"
    by code_simp
  have s: "scan (scanner_with [0, 2] 2 True) (lexer_on ''    d'') all_valid
     = Inr (True, scanner_with [0, 2, 4] 4 False,
            \<lparr>remaining = ''d'', column = 4, result_symbol = Some INDENT\<rparr>)"
    by code_simp
  show ?thesis
    using scan_preserves_stack_inv [OF i s] s by simp
qed

text \<open>
  A scanner created on any block of memory has the stack \<open>[0]\<close> and satisfies the
  invariant.
\<close>

theorem create_establishes_stack_inv:
  assumes "length (indent_stack block) = 100"
  shows "\<exists>scanner. create (Some block) = Some scanner \<and> stack_of scanner = [0] \<and>
           stack_inv scanner \<and> at_line_start scanner"
  using assms
  by (cases "indent_stack block")
     (simp_all add: create_def stack_of_def stack_inv_def stack_capacity_def)

theorem create_establishes_stack_inv_witness:
  "\<exists>scanner. create (Some zeroed_block) = Some scanner \<and> stack_of scanner = [0] \<and>
           stack_inv scanner \<and> at_line_start scanner"
proof -
  have "length (indent_stack zeroed_block) = 100"
    by (simp add: zeroed_block_def)
  then show ?thesis
    by (rule create_establishes_stack_inv)
qed

text \<open>
  The full stack is reached from a created scanner by 99 lines, each one space deeper than
  the line before.
\<close>

lemma skip_whitespace_spaces:
  assumes "remaining lexer = replicate n (CHR '' '') @ c # rest"
    and "c \<noteq> CHR '' ''" and "c \<noteq> CHR 0x09"
  shows "skip_whitespace lexer indent = (consume n lexer, indent + int n)"
  using assms(1)
proof (induction n arbitrary: lexer indent)
  case 0
  then have "lookahead lexer = c"
    by (simp add: lookahead_def)
  then show ?case
    using assms(2,3) by (simp add: skip_whitespace_stop)
next
  case (Suc n)
  then have la: "lookahead lexer = CHR '' ''"
    by (simp add: lookahead_def)
  have "remaining (advance lexer) = replicate n (CHR '' '') @ c # rest"
    using Suc.prems by (simp add: remaining_advance)
  then have "skip_whitespace (advance lexer) (indent + 1)
               = (consume n (advance lexer), indent + 1 + int n)"
    by (rule Suc.IH)
  then show ?case
    using la by (subst skip_whitespace.simps) simp
qed

lemma scan_token_newline:
  "scan_token scanner (lexer_on (CHR 0x0A # ''x'')) all_valid
     = Inr (Some NEWLINE, scanner\<lparr>at_line_start := True\<rparr>)"
  by (simp add: scan_token_def scan_def scan_newline_def lexer_on_def all_valid_def
      lookahead_def advance_def get_column_def)

lemma scanner_with_line_start:
  "(scanner_with stack indent b)\<lparr>at_line_start := True\<rparr> = scanner_with stack indent True"
  by (simp add: scanner_with_def)

lemma upto_snoc: "[0..int (Suc k)] = [0..int k] @ [int (Suc k)]"
  using upto_rec2 [of 0 "int (Suc k)"] by simp

lemma length_upto_nat: "length [0..int k] = Suc k"
  by simp

lemma scan_token_deeper_line:
  assumes "Suc k < 100"
  shows "scan_token (scanner_with [0..int k] indent True)
           (lexer_on (replicate (Suc k) (CHR '' '') @ ''x'')) all_valid
         = Inr (Some INDENT, scanner_with [0..int (Suc k)] (int (Suc k)) False)"
proof -
  let ?scanner = "scanner_with [0..int k] indent True"
  let ?lexer = "lexer_on (replicate (Suc k) (CHR '' '') @ ''x'')"
  let ?lexer1 = "consume (Suc k) ?lexer"
  have sw: "skip_whitespace ?lexer 0 = (?lexer1, 0 + int (Suc k))"
    by (rule skip_whitespace_spaces [where c = "CHR ''x''" and rest = "[]"])
       (simp_all add: lexer_on_def)
  have "remaining ?lexer1 = drop (Suc k) (remaining ?lexer)"
    by (rule remaining_consume)
  then have "remaining ?lexer1 = ''x''"
    by (simp add: lexer_on_def)
  then have "lookahead ?lexer1 = CHR ''x''"
    by (simp add: lookahead_def)
  then have cl: "content_line ?lexer1 (int (Suc k))"
    by (simp add: content_line_def)
  have bounds: "stack_in_bounds ?scanner"
    using assms by (simp add: stack_in_bounds_def scanner_with_def stack_capacity_def)
  have suc: "nat (int k + 1) = Suc k"
    by simp
  have top: "stack_top ?scanner = int k"
    by (simp add: stack_top_def scanner_with_def nth_append suc)
  have size: "indent_stack_size ?scanner < stack_capacity"
    using assms by (simp add: scanner_with_def stack_capacity_def)
  have l1: "length [0..int k] = Suc k" and l2: "length [0..int (Suc k)] = Suc (Suc k)"
    by simp_all
  have stack: "indent_stack ?scanner = [0..int k] @ replicate (100 - Suc k) 0"
    and depth: "nat (indent_stack_size ?scanner) = Suc k"
    by (simp_all add: scanner_with_def l1 del: length_upto upto.simps)
  have rep: "replicate (100 - Suc k) (0::int) = 0 # replicate (100 - Suc (Suc k)) 0"
  proof -
    have "100 - Suc k = Suc (100 - Suc (Suc k))"
      using assms by simp
    then show ?thesis
      by (simp only: replicate_Suc)
  qed
  have "(indent_stack ?scanner)[nat (indent_stack_size ?scanner) := int (Suc k)]
          = [0..int k] @ (0 # replicate (100 - Suc (Suc k)) 0)[0 := int (Suc k)]"
    unfolding stack depth rep using l1 by (simp add: list_update_append del: length_upto upto.simps)
  also have "\<dots> = ([0..int k] @ [int (Suc k)]) @ replicate (100 - Suc (Suc k)) 0"
    by simp
  also have "\<dots> = [0..int (Suc k)] @ replicate (100 - length [0..int (Suc k)]) 0"
    by (simp only: l2 upto_snoc [symmetric])
  finally have "(indent_stack ?scanner)[nat (indent_stack_size ?scanner) := int (Suc k)]
          = [0..int (Suc k)] @ replicate (100 - length [0..int (Suc k)]) 0" .
  then have "?scanner\<lparr>indent_stack :=
                 (indent_stack ?scanner)[nat (indent_stack_size ?scanner) := int (Suc k)],
               indent_stack_size := indent_stack_size ?scanner + 1,
               current_indent := int (Suc k), at_line_start := False\<rparr>
             = scanner_with [0..int (Suc k)] (int (Suc k)) False"
    by (simp add: scanner_with_def)
  moreover have "scan ?scanner ?lexer all_valid =
      Inr (True,
           ?scanner\<lparr>indent_stack :=
                 (indent_stack ?scanner)[nat (indent_stack_size ?scanner) := int (Suc k)],
               indent_stack_size := indent_stack_size ?scanner + 1,
               current_indent := int (Suc k), at_line_start := False\<rparr>,
           ?lexer1\<lparr>result_symbol := Some INDENT\<rparr>)"
    using scan_content_line [of ?scanner all_valid ?lexer ?lexer1 "int (Suc k)"]
      sw cl bounds top size
    by (simp add: all_valid_def scanner_with_def)
  ultimately show ?thesis
    by (simp add: scan_token_def)
qed

lemma nested_lines_reach:
  assumes "k + n < 100" and "0 < n"
  shows "\<exists>out. scan_calls (scanner_with [0..int k] indent line_start) (nested_lines k n)
           = Inr (out, scanner_with [0..int (k + n)] (int (k + n)) False)"
  using assms
proof (induction n arbitrary: k indent line_start)
  case 0
  then show ?case by simp
next
  case (Suc n)
  have nl: "scan_token (scanner_with [0..int k] indent line_start)
              (lexer_on (CHR 0x0A # ''x'')) all_valid
            = Inr (Some NEWLINE, scanner_with [0..int k] indent True)"
    by (simp add: scan_token_newline scanner_with_line_start)
  have push: "scan_token (scanner_with [0..int k] indent True)
           (lexer_on (replicate (Suc k) (CHR '' '') @ ''x'')) all_valid
         = Inr (Some INDENT, scanner_with [0..int (Suc k)] (int (Suc k)) False)"
    using Suc.prems(1) by (intro scan_token_deeper_line) simp
  show ?case
  proof (cases n)
    case 0
    then show ?thesis
      using nl push by simp
  next
    case (Suc m)
    then obtain out where "scan_calls (scanner_with [0..int (Suc k)] (int (Suc k)) False)
               (nested_lines (Suc k) n)
             = Inr (out, scanner_with [0..int (Suc k + n)] (int (Suc k + n)) False)"
      using Suc.IH [of "Suc k" "int (Suc k)" False] Suc.prems(1) by auto
    then show ?thesis
      using nl push by simp
  qed
qed

lemma full_stack_reachable:
  "\<exists>out. scan_calls (scanner_with [0] 0 True) (nested_lines 0 99)
           = Inr (out, scanner_with [0..99] 99 False)"
  using nested_lines_reach [of 0 99 0 True] by simp


text \<open>
  Claim C3 fails on the code: there is no overflow check. The stack reaches its capacity
  of 100 entries (top 99) after 99 lines that go deeper by one space each; there, a line of
  width 100 with INDENT acceptable reaches the store of line 135 with index 100, past the
  end of the array.
\<close>

theorem push_on_full_stack_writes_out_of_bounds:
  "(\<exists>out. scan_calls (scanner_with [0] 0 True) (nested_lines 0 99)
            = Inr (out, scanner_with [0..99] 99 False)) \<and>
   indent_stack_size (scanner_with [0..99] 99 True) = stack_capacity \<and>
   scan (scanner_with [0..99] 99 True) (lexer_on (replicate 25 (CHR 0x09) @ ''x'')) all_valid
     = Inl OutOfBoundsWrite"
proof -
  have "indent_stack_size (scanner_with [0..99] 99 True) = stack_capacity \<and>
   scan (scanner_with [0..99] 99 True) (lexer_on (replicate 25 (CHR 0x09) @ ''x'')) all_valid
     = Inl OutOfBoundsWrite"
    by code_simp
  with full_stack_reachable show ?thesis
    by blast
qed

text \<open>
  Claim C6 fails on the code at the capacity of the array. On a state that satisfies the
  invariant and holds 100 entries, a scan call at line start with INDENT acceptable and a
  line wider than the top does not return a state at all: it stores past the array.
\<close>

theorem push_on_full_stack_leaves_invariant:
  assumes "stack_inv scanner"
    and "indent_stack_size scanner = stack_capacity"
    and "at_line_start scanner"
    and "valid_symbols INDENT"
    and "skip_whitespace lexer 0 = (lexer1, width)"
    and "content_line lexer1 width"
    and "stack_top scanner < width"
  shows "scan scanner lexer valid_symbols = Inl OutOfBoundsWrite"
  using scan_content_line [of scanner valid_symbols lexer lexer1 width]
    stack_inv_in_bounds [OF assms(1)] assms(2-7)
  by simp

text \<open>The stack \<open>[0, 1, \<dots>, 99]\<close> and a line of 100 spaces, only INDENT acceptable.\<close>

theorem push_on_full_stack_leaves_invariant_witness:
  "scan (scanner_with [0..99] 99 True) (lexer_on (replicate 100 (CHR '' '') @ ''x''))
        (\<lambda>t. t = INDENT)
     = Inl OutOfBoundsWrite"
proof -
  let ?lexer = "lexer_on (replicate 100 (CHR '' '') @ ''x'')"
  have i: "stack_inv (scanner_with [0..99] 99 True)"
    by code_simp
  have z: "indent_stack_size (scanner_with [0..99] 99 True) = stack_capacity"
    by code_simp
  have l: "at_line_start (scanner_with [0..99] 99 True)"
    by (simp add: scanner_with_def)
  have w: "skip_whitespace ?lexer 0 = (consume 100 ?lexer, 100)"
    by code_simp
  have c: "content_line (consume 100 ?lexer) 100"
    by code_simp
  have t: "stack_top (scanner_with [0..99] 99 True) < 100"
    by code_simp
  show ?thesis
    using push_on_full_stack_leaves_invariant [where scanner = "scanner_with [0..99] 99 True"
        and valid_symbols = "\<lambda>t. t = INDENT" and lexer = ?lexer
        and ?lexer1.0 = "consume 100 ?lexer" and width = 100] i z l w c t
    by simp
qed

end
